theory Spec2Isabelle
  imports Main
begin

section \<open>The failure detector of swim-js (lib/failure-detector.js)\<close>

text \<open>
  The detector is an event-driven object: its methods arm timers, register closures and
  send messages, and the JavaScript runtime later calls the closures back. The model is a
  record holding the fields of the object together with the part of the runtime the
  object talks to (pending timeouts, intervals, immediates, the \<open>process.nextTick\<close>
  queue, the listeners registered on the transport, the messages handed to the transport
  and the signals emitted). Every method is a function from state to state, every closure
  of the source is a constructor of a datatype that records what the closure captured,
  and the runtime calling back is an event of a step function.

  Numbers: \<open>seq\<close> and the configured delays are JavaScript numbers holding non-negative
  integers; they are modelled as \<open>nat\<close>. A JavaScript number counts exactly up to
  \<open>2^53\<close>, which the counter \<open>seq\<close> (one step per probe) is taken never to reach.
  Time is not measured: a pending timeout may fire at any moment, so "no acknowledgement
  within the timeout" is "the timeout fires while it is still pending".
\<close>

subsection \<open>Data\<close>

type_synonym handle = nat

text \<open>A member is opaque to the detector but for its \<open>host\<close>.\<close>

record member =
  host :: string

text \<open>\<open>MessageType\<close> (lib/message-type.js) and the events of \<open>Net.EventType\<close>.\<close>

datatype message_type = Ping | PingReq | Ack

text \<open>
  The \<open>data\<close> object of a message. A field the object literal does not write is
  \<open>None\<close> (\<open>undefined\<close>); \<open>self.local\<close> may itself be undefined.
\<close>

record data =
  data_seq :: nat
  data_host :: "string option"
  data_destination :: "string option"

record message =
  msg_type :: message_type
  msg_data :: data

text \<open>The three bound functions the constructor creates.\<close>

datatype listener = pingListener | pingReqListener | ackListener

text \<open>
  The closures handed to \<open>setTimeout\<close>, each with what it captures:
  \<open>receiveTimeout\<close> of \<open>pingMember\<close> (seq, member), \<open>pingReqTimeout\<close> of \<open>pingReq\<close>
  (member), \<open>receiveTimeout\<close> of \<open>pingReqThroughMember\<close> (seq) and \<open>receiveTimeout\<close>
  of \<open>onPingReq\<close> (seq).
\<close>

datatype timeout_fn =
    receiveTimeout_pingMember nat member
  | pingReqTimeout_fn member
  | receiveTimeout_pingReqThroughMember nat
  | receiveTimeout_onPingReq nat

text \<open>
  The closures stored in \<open>seqToCallback\<close>: \<open>pingReqAckReceiveCallback\<close> captures seq
  and \<open>callback\<close>, which is always \<open>pingReqThroughMemberCallback\<close> and captures the
  handle \<open>timeout\<close> of its round; \<open>pingAckReceiveCallback\<close> captures seq, \<open>data.seq\<close>
  and \<open>host\<close>.
\<close>

datatype callback =
    pingReqAckReceiveCallback nat handle
  | pingAckReceiveCallback nat nat string

text \<open>
  What the membership collaborator answers when an event consults it: the result of
  \<open>membership.next()\<close> and the function \<open>membership.random\<close>.
\<close>

record membership =
  mnext :: "member option"
  mrandom :: "nat \<Rightarrow> member list"

record detector =
  interval :: nat
  pingTimeout :: nat
  pingReqTimeout :: nat
  pingReqGroupSize :: nat
  seq :: nat
  tickHandle :: "handle option"
  seqToTimeout :: "nat \<rightharpoonup> handle"
  seqToCallback :: "nat \<rightharpoonup> callback"
  local_id :: "string option"
  \<comment> \<open>the runtime\<close>
  timeouts :: "handle \<rightharpoonup> nat \<times> timeout_fn"
  intervals :: "handle \<rightharpoonup> nat"
  immediates :: nat
  nextTicks :: "callback list"
  nextHandle :: handle
  \<comment> \<open>the transport \<open>swim.net\<close>\<close>
  listeners :: "message_type \<Rightarrow> listener list"
  sent :: "(message \<times> string option) list"
  \<comment> \<open>the detector's own \<open>suspect\<close> events\<close>
  emitted :: "member list"

subsection \<open>Construction\<close>

text \<open>The options object; \<open>None\<close> is an option that is not supplied.\<close>

record opts =
  opt_interval :: "nat option"
  opt_pingTimeout :: "nat option"
  opt_pingReqTimeout :: "nat option"
  opt_pingReqGroupSize :: "nat option"
  opt_debugIdentifier :: "string option"

text \<open>\<open>a || b\<close> on a number or undefined: \<open>0\<close> and \<open>undefined\<close> are falsy.\<close>

definition js_or :: "nat option \<Rightarrow> nat \<Rightarrow> nat" where
  "js_or a b = (case a of None \<Rightarrow> b | Some n \<Rightarrow> if n = 0 then b else n)"

definition Default_interval :: nat where "Default_interval = 20"
definition Default_pingTimeout :: nat where "Default_pingTimeout = 4"
definition Default_pingReqTimeout :: nat where "Default_pingReqTimeout = 12"
definition Default_pingReqGroupSize :: nat where "Default_pingReqGroupSize = 3"

definition FailureDetector :: "opts \<Rightarrow> detector" where
  "FailureDetector opts =
     \<lparr> interval = js_or (opt_interval opts) Default_interval,
       pingTimeout = js_or (opt_pingTimeout opts) Default_pingTimeout,
       pingReqTimeout = js_or (opt_pingReqTimeout opts) Default_pingReqTimeout,
       pingReqGroupSize = js_or (opt_pingReqGroupSize opts) Default_pingReqGroupSize,
       seq = 0,
       tickHandle = None,
       seqToTimeout = Map.empty,
       seqToCallback = Map.empty,
       local_id = opt_debugIdentifier opts,
       timeouts = Map.empty,
       intervals = Map.empty,
       immediates = 0,
       nextTicks = [],
       nextHandle = 0,
       listeners = (\<lambda>_. []),
       sent = [],
       emitted = [] \<rparr>"

subsection \<open>The runtime and the collaborators\<close>

definition setTimeout :: "timeout_fn \<Rightarrow> nat \<Rightarrow> detector \<Rightarrow> handle \<times> detector" where
  "setTimeout f delay s =
     (nextHandle s,
      s\<lparr>timeouts := (timeouts s)(nextHandle s \<mapsto> (delay, f)),
        nextHandle := Suc (nextHandle s)\<rparr>)"

text \<open>\<open>clearTimeout(undefined)\<close> and clearing a timeout that is gone do nothing.\<close>

definition clearTimeout :: "handle option \<Rightarrow> detector \<Rightarrow> detector" where
  "clearTimeout h s =
     (case h of None \<Rightarrow> s | Some t \<Rightarrow> s\<lparr>timeouts := (timeouts s)(t := None)\<rparr>)"

text \<open>The only function ever given to \<open>setInterval\<close> and \<open>setImmediate\<close> is \<open>ping\<close>.\<close>

definition setInterval :: "nat \<Rightarrow> detector \<Rightarrow> handle \<times> detector" where
  "setInterval delay s =
     (nextHandle s,
      s\<lparr>intervals := (intervals s)(nextHandle s \<mapsto> delay),
        nextHandle := Suc (nextHandle s)\<rparr>)"

definition clearInterval :: "handle option \<Rightarrow> detector \<Rightarrow> detector" where
  "clearInterval h s =
     (case h of None \<Rightarrow> s | Some t \<Rightarrow> s\<lparr>intervals := (intervals s)(t := None)\<rparr>)"

definition setImmediate :: "detector \<Rightarrow> detector" where
  "setImmediate s = s\<lparr>immediates := Suc (immediates s)\<rparr>"

definition nextTick :: "callback \<Rightarrow> detector \<Rightarrow> detector" where
  "nextTick cb s = s\<lparr>nextTicks := nextTicks s @ [cb]\<rparr>"

text \<open>
  Modelled from the spec: the transport \<open>swim.net\<close> (lib/net.js): \<open>send(message,
  destinationHost)\<close> is fire-and-forget, and \<open>subscribe\<close>/\<open>unsubscribe\<close> are the
  \<open>on\<close>/\<open>removeListener\<close> of an event emitter: \<open>on\<close> appends the listener, also when it
  is registered already, and \<open>removeListener\<close> removes the instance added last.
\<close>

definition sendMessage :: "message \<Rightarrow> string option \<Rightarrow> detector \<Rightarrow> detector" where
  "sendMessage m dest s = s\<lparr>sent := sent s @ [(m, dest)]\<rparr>"

definition net_on :: "message_type \<Rightarrow> listener \<Rightarrow> detector \<Rightarrow> detector" where
  "net_on ev l s = s\<lparr>listeners := (listeners s)(ev := listeners s ev @ [l])\<rparr>"

definition net_removeListener :: "message_type \<Rightarrow> listener \<Rightarrow> detector \<Rightarrow> detector" where
  "net_removeListener ev l s =
     s\<lparr>listeners := (listeners s)(ev := rev (remove1 l (rev (listeners s ev))))\<rparr>"

text \<open>\<open>self.emit(FailureDetector.EventType.Suspect, member)\<close>.\<close>

definition emit_Suspect :: "member \<Rightarrow> detector \<Rightarrow> detector" where
  "emit_Suspect m s = s\<lparr>emitted := emitted s @ [m]\<rparr>"

subsection \<open>The methods\<close>

definition clearSeq :: "nat \<Rightarrow> detector \<Rightarrow> detector" where
  "clearSeq sq s =
     (let s1 = clearTimeout (seqToTimeout s sq) s;
          s2 = s1\<lparr>seqToCallback := (seqToCallback s1)(sq := None)\<rparr>
      in s2\<lparr>seqToTimeout := (seqToTimeout s2)(sq := None)\<rparr>)"

definition pingReqThroughMember :: "member \<Rightarrow> member \<Rightarrow> handle \<Rightarrow> detector \<Rightarrow> detector" where
  "pingReqThroughMember m relayMember timeout s =
     (let sq = seq s;
          s1 = s\<lparr>seq := seq s + 1\<rparr>;
          (h, s2) = setTimeout (receiveTimeout_pingReqThroughMember sq) (pingReqTimeout s1) s1;
          s3 = s2\<lparr>seqToTimeout := (seqToTimeout s2)(sq \<mapsto> h)\<rparr>;
          s4 = s3\<lparr>seqToCallback := (seqToCallback s3)(sq \<mapsto> pingReqAckReceiveCallback sq timeout)\<rparr>
      in sendMessage
           \<lparr>msg_type = PingReq,
            msg_data = \<lparr>data_seq = sq, data_host = local_id s4,
                        data_destination = Some (host m)\<rparr>\<rparr>
           (Some (host relayMember)) s4)"

definition pingReq :: "member \<Rightarrow> membership \<Rightarrow> detector \<Rightarrow> detector" where
  "pingReq m mem s =
     (let relayMembers = mrandom mem (pingReqGroupSize s)
      in if length relayMembers = 0 then s
         else
           (let (timeout, s1) = setTimeout (pingReqTimeout_fn m) (pingReqTimeout s) s
            in fold (\<lambda>relayMember. pingReqThroughMember m relayMember timeout) relayMembers s1))"

definition pingMember :: "member option \<Rightarrow> detector \<Rightarrow> detector" where
  "pingMember mo s =
     (let sq = seq s
      in case mo of
           None \<Rightarrow> s
         | Some m \<Rightarrow>
             (let s1 = s\<lparr>seq := seq s + 1\<rparr>;
                  (h, s2) = setTimeout (receiveTimeout_pingMember sq m) (pingTimeout s1) s1;
                  s3 = s2\<lparr>seqToTimeout := (seqToTimeout s2)(sq \<mapsto> h)\<rparr>
              in sendMessage
                   \<lparr>msg_type = Ping,
                    msg_data = \<lparr>data_seq = sq, data_host = local_id s3,
                                data_destination = None\<rparr>\<rparr>
                   (Some (host m)) s3))"

definition ping :: "membership \<Rightarrow> detector \<Rightarrow> detector" where
  "ping mem s = pingMember (mnext mem) s"

definition tick :: "detector \<Rightarrow> detector" where
  "tick s =
     (let s1 = setImmediate s;
          (h, s2) = setInterval (interval s1) s1
      in s2\<lparr>tickHandle := Some h\<rparr>)"

definition start :: "detector \<Rightarrow> detector" where
  "start s =
     tick (net_on Ack ackListener
            (net_on PingReq pingReqListener
              (net_on Ping pingListener s)))"

text \<open>
  The two \<open>forEach\<close> loops of \<open>stop\<close> clear the timeout of every key of \<open>seqToTimeout\<close>
  and delete every key of both tables: the timeouts that remain are those whose handle
  is not a value of \<open>seqToTimeout\<close>.
\<close>

definition stop :: "detector \<Rightarrow> detector" where
  "stop s =
     (let s1 = clearInterval (tickHandle s) s;
          s2 = s1\<lparr>tickHandle := None\<rparr>;
          s3 = net_removeListener Ping pingListener s2;
          s4 = net_removeListener PingReq pingReqListener s3;
          s5 = net_removeListener Ack ackListener s4;
          s6 = s5\<lparr>timeouts := timeouts s5 |` (- ran (seqToTimeout s5)),
                  seqToTimeout := Map.empty\<rparr>
      in s6\<lparr>seqToCallback := Map.empty\<rparr>)"

definition onPing :: "data \<Rightarrow> string \<Rightarrow> detector \<Rightarrow> detector" where
  "onPing d h s =
     sendMessage
       \<lparr>msg_type = Ack,
        msg_data = \<lparr>data_seq = data_seq d, data_host = local_id s, data_destination = None\<rparr>\<rparr>
       (Some h) s"

definition onPingReq :: "data \<Rightarrow> string \<Rightarrow> detector \<Rightarrow> detector" where
  "onPingReq d h s =
     (let sq = seq s;
          s1 = s\<lparr>seq := seq s + 1\<rparr>;
          (t, s2) = setTimeout (receiveTimeout_onPingReq sq) (pingTimeout s1) s1;
          s3 = s2\<lparr>seqToTimeout := (seqToTimeout s2)(sq \<mapsto> t)\<rparr>;
          s4 = s3\<lparr>seqToCallback := (seqToCallback s3)(sq \<mapsto> pingAckReceiveCallback sq (data_seq d) h)\<rparr>
      in sendMessage
           \<lparr>msg_type = Ping,
            msg_data = \<lparr>data_seq = sq, data_host = data_destination d,
                        data_destination = None\<rparr>\<rparr>
           (data_destination d) s4)"

definition onAck :: "data \<Rightarrow> detector \<Rightarrow> detector" where
  "onAck d s =
     (let s1 = (case seqToCallback s (data_seq d) of
                  None \<Rightarrow> s
                | Some cb \<Rightarrow> nextTick cb s)
      in clearSeq (data_seq d) s1)"

subsection \<open>Running the closures\<close>

fun run_timeout_fn :: "timeout_fn \<Rightarrow> membership \<Rightarrow> detector \<Rightarrow> detector" where
  "run_timeout_fn (receiveTimeout_pingMember sq m) mem s = pingReq m mem (clearSeq sq s)"
| "run_timeout_fn (pingReqTimeout_fn m) mem s = emit_Suspect m s"
| "run_timeout_fn (receiveTimeout_pingReqThroughMember sq) mem s = clearSeq sq s"
| "run_timeout_fn (receiveTimeout_onPingReq sq) mem s = clearSeq sq s"

fun run_callback :: "callback \<Rightarrow> detector \<Rightarrow> detector" where
  "run_callback (pingReqAckReceiveCallback sq timeout) s =
     clearTimeout (Some timeout) (clearSeq sq s)"
| "run_callback (pingAckReceiveCallback sq reqSeq h) s =
     sendMessage
       \<lparr>msg_type = Ack,
        msg_data = \<lparr>data_seq = reqSeq, data_host = None, data_destination = None\<rparr>\<rparr>
       (Some h) (clearSeq sq s)"

fun call_listener :: "listener \<Rightarrow> data \<Rightarrow> string \<Rightarrow> detector \<Rightarrow> detector" where
  "call_listener pingListener d h s = onPing d h s"
| "call_listener pingReqListener d h s = onPingReq d h s"
| "call_listener ackListener d h s = onAck d s"

subsection \<open>Events\<close>

text \<open>
  What can happen to a detector: a call of \<open>start\<close> or \<open>stop\<close>, the runtime firing a
  timeout or an interval, running an immediate or the head of the \<open>nextTick\<close> queue, and
  the transport emitting a message with its source host. A timeout fires once and is then
  gone; an event for a handle that is not pending, or for an empty queue, changes
  nothing.
\<close>

datatype event =
    Start
  | Stop
  | TimeoutFires handle membership
  | IntervalFires handle membership
  | ImmediateRuns membership
  | NextTickRuns
  | Receive message string

fun step :: "event \<Rightarrow> detector \<Rightarrow> detector" where
  "step Start s = start s"
| "step Stop s = stop s"
| "step (TimeoutFires h mem) s =
     (case timeouts s h of
        None \<Rightarrow> s
      | Some (delay, f) \<Rightarrow> run_timeout_fn f mem (s\<lparr>timeouts := (timeouts s)(h := None)\<rparr>))"
| "step (IntervalFires h mem) s =
     (case intervals s h of
        None \<Rightarrow> s
      | Some delay \<Rightarrow> ping mem s)"
| "step (ImmediateRuns mem) s =
     (if immediates s = 0 then s
      else ping mem (s\<lparr>immediates := immediates s - 1\<rparr>))"
| "step NextTickRuns s =
     (case nextTicks s of
        [] \<Rightarrow> s
      | cb # cbs \<Rightarrow> run_callback cb (s\<lparr>nextTicks := cbs\<rparr>))"
| "step (Receive m h) s =
     fold (\<lambda>l. call_listener l (msg_data m) h) (listeners s (msg_type m)) s"

fun run :: "event list \<Rightarrow> detector \<Rightarrow> detector" where
  "run [] s = s"
| "run (e # es) s = run es (step e s)"


subsection \<open>Predicates used in the properties\<close>


text \<open>The PingReq that \<open>pingReqThroughMember\<close> sends for the sequence \<open>k\<close> to the relay \<open>r\<close>.\<close>

definition leg_message :: "detector \<Rightarrow> member \<Rightarrow> nat \<times> member \<Rightarrow> message \<times> string option" where
  "leg_message s m = (\<lambda>(k, r).
     (\<lparr>msg_type = PingReq,
       msg_data = \<lparr>data_seq = k, data_host = local_id s, data_destination = Some (host m)\<rparr>\<rparr>,
      Some (host r)))"

text \<open>Every handle recorded in \<open>seqToTimeout\<close> has been handed out by the runtime.\<close>

definition handles_ok :: "detector \<Rightarrow> bool" where
  "handles_ok s \<longleftrightarrow> (\<forall>k h. seqToTimeout s k = Some h \<longrightarrow> h < nextHandle s)"

text \<open>
  The timeout \<open>h\<close> is pending with delay and closure \<open>x\<close>, and no entry of
  \<open>seqToTimeout\<close> holds its handle.
\<close>

definition round_armed :: "handle \<Rightarrow> nat \<times> timeout_fn \<Rightarrow> detector \<Rightarrow> bool" where
  "round_armed h x s \<longleftrightarrow>
     timeouts s h = Some x \<and> h < nextHandle s \<and> (\<forall>k. seqToTimeout s k \<noteq> Some h)"

text \<open>The handle \<open>h\<close> has been handed out and its timeout is no longer pending.\<close>

definition handle_spent :: "handle \<Rightarrow> detector \<Rightarrow> bool" where
  "handle_spent h s \<longleftrightarrow> timeouts s h = None \<and> h < nextHandle s"

text \<open>
  The event runs the completion callback of a relay leg whose round has the suspicion
  timer \<open>h\<close>: the head of the \<open>nextTick\<close> queue is a \<open>pingReqAckReceiveCallback\<close> that
  captured \<open>h\<close>.
\<close>

fun acks_round :: "handle \<Rightarrow> event \<Rightarrow> detector \<Rightarrow> bool" where
  "acks_round h NextTickRuns s =
     (case nextTicks s of
        pingReqAckReceiveCallback sq t # cbs \<Rightarrow> t = h
      | _ \<Rightarrow> False)"
| "acks_round h e s = False"

text \<open>The event is the runtime firing the timeout \<open>h\<close>.\<close>

fun fires_timeout :: "handle \<Rightarrow> event \<Rightarrow> bool" where
  "fires_timeout h (TimeoutFires h' mem) = (h' = h)"
| "fires_timeout h e = False"

text \<open>
  Along the events \<open>es\<close> from \<open>s\<close>, no leg of the round of \<open>h\<close> has its completion
  callback run and the timeout \<open>h\<close> does not fire.
\<close>

fun undisturbed :: "handle \<Rightarrow> event list \<Rightarrow> detector \<Rightarrow> bool" where
  "undisturbed h [] s = True"
| "undisturbed h (e # es) s =
     (\<not> acks_round h e s \<and> \<not> fires_timeout h e \<and> undisturbed h es (step e s))"

text \<open>The sequence a completion callback captured.\<close>

fun callback_seq :: "callback \<Rightarrow> nat" where
  "callback_seq (pingReqAckReceiveCallback sq t) = sq"
| "callback_seq (pingAckReceiveCallback sq reqSeq h) = sq"

text \<open>
  Every callback in \<open>seqToCallback\<close> sits under the sequence it captured, which has been
  allocated and is not also waiting in the \<open>nextTick\<close> queue; the callbacks waiting in
  the queue captured allocated sequences, each a different one.
\<close>

definition callbacks_ok :: "detector \<Rightarrow> bool" where
  "callbacks_ok s \<longleftrightarrow>
     (\<forall>k cb. seqToCallback s k = Some cb \<longrightarrow>
        callback_seq cb = k \<and> k < seq s \<and> k \<notin> callback_seq ` set (nextTicks s)) \<and>
     (\<forall>cb\<in>set (nextTicks s). callback_seq cb < seq s) \<and>
     distinct (map callback_seq (nextTicks s))"

text \<open>
  The sequence \<open>k\<close> has been allocated and its callback is neither registered nor
  waiting to run.
\<close>

definition callback_done :: "nat \<Rightarrow> detector \<Rightarrow> bool" where
  "callback_done k s \<longleftrightarrow>
     callbacks_ok s \<and> seqToCallback s k = None \<and> k \<notin> callback_seq ` set (nextTicks s) \<and>
     k < seq s"

text \<open>The event runs the completion callback of the sequence \<open>k\<close>.\<close>

fun runs_callback :: "nat \<Rightarrow> event \<Rightarrow> detector \<Rightarrow> bool" where
  "runs_callback k NextTickRuns s =
     (case nextTicks s of [] \<Rightarrow> False | cb # cbs \<Rightarrow> callback_seq cb = k)"
| "runs_callback k e s = False"

text \<open>How many times the completion callback of \<open>k\<close> runs along the events from \<open>s\<close>.\<close>

fun callback_runs :: "nat \<Rightarrow> event list \<Rightarrow> detector \<Rightarrow> nat" where
  "callback_runs k [] s = 0"
| "callback_runs k (e # es) s =
     (if runs_callback k e s then 1 else 0) + callback_runs k es (step e s)"

text \<open>
  The sequences of the Ping and PingReq messages in a list of sent messages, in the order
  they were sent. Each allocation of a sequence is followed by sending one such message
  with it; an Ack carries a sequence another node allocated.
\<close>

definition probe_seqs :: "(message \<times> string option) list \<Rightarrow> nat list" where
  "probe_seqs ms =
     map (\<lambda>x. data_seq (msg_data (fst x))) (filter (\<lambda>x. msg_type (fst x) \<noteq> Ack) ms)"

text \<open>
  The pending sequences are below the counter, and the sequences allocated so far are
  \<open>0, 1, \<dots>\<close> up to the counter, in this order.
\<close>

definition seqs_ok :: "detector \<Rightarrow> bool" where
  "seqs_ok s \<longleftrightarrow>
     (\<forall>k. seqToTimeout s k \<noteq> None \<longrightarrow> k < seq s) \<and>
     (\<forall>k. seqToCallback s k \<noteq> None \<longrightarrow> k < seq s) \<and>
     probe_seqs (sent s) = [0..<seq s]"

text \<open>The sequence a timeout closure captured, for those that clear one.\<close>

fun timeout_seq :: "timeout_fn \<Rightarrow> nat option" where
  "timeout_seq (receiveTimeout_pingMember sq m) = Some sq"
| "timeout_seq (pingReqTimeout_fn m) = None"
| "timeout_seq (receiveTimeout_pingReqThroughMember sq) = Some sq"
| "timeout_seq (receiveTimeout_onPingReq sq) = Some sq"

text \<open>The timeout handle a completion callback captured, for those that clear one.\<close>

fun callback_timeout :: "callback \<Rightarrow> handle option" where
  "callback_timeout (pingReqAckReceiveCallback sq t) = Some t"
| "callback_timeout (pingAckReceiveCallback sq reqSeq h) = None"

text \<open>
  Every closure held by the runtime or the tables captured a sequence that has been
  allocated and a handle that has been handed out, every key of the tables has been
  allocated, and each event of the transport has only its own listener registered.
\<close>

definition closures_ok :: "detector \<Rightarrow> bool" where
  "closures_ok s \<longleftrightarrow>
     (\<forall>h d f k. timeouts s h = Some (d, f) \<longrightarrow> timeout_seq f = Some k \<longrightarrow> k < seq s) \<and>
     (\<forall>k h. seqToTimeout s k = Some h \<longrightarrow> k < seq s \<and> h < nextHandle s) \<and>
     (\<forall>k c. seqToCallback s k = Some c \<longrightarrow>
        k < seq s \<and> callback_seq c < seq s \<and>
        (\<forall>t. callback_timeout c = Some t \<longrightarrow> t < nextHandle s)) \<and>
     (\<forall>c\<in>set (nextTicks s).
        callback_seq c < seq s \<and> (\<forall>t. callback_timeout c = Some t \<longrightarrow> t < nextHandle s)) \<and>
     set (listeners s Ping) \<subseteq> {pingListener} \<and>
     set (listeners s PingReq) \<subseteq> {pingReqListener} \<and>
     set (listeners s Ack) \<subseteq> {ackListener}"

text \<open>
  The transaction of the sequence \<open>k\<close> is open: its timeout \<open>hk\<close> is pending with delay
  and closure \<open>x\<close>, the tables hold \<open>hk\<close> and the callback \<open>cbo\<close> (if any) under \<open>k\<close>,
  and nothing else the detector holds can clear them: no other key holds \<open>hk\<close>, no other
  timeout captured \<open>k\<close>, and no other callback captured \<open>k\<close> or \<open>hk\<close>.
\<close>

definition transaction ::
  "nat \<Rightarrow> handle \<Rightarrow> nat \<times> timeout_fn \<Rightarrow> callback option \<Rightarrow> detector \<Rightarrow> bool" where
  "transaction k hk x cbo s \<longleftrightarrow>
     timeouts s hk = Some x \<and> seqToTimeout s k = Some hk \<and> seqToCallback s k = cbo \<and>
     k < seq s \<and> hk < nextHandle s \<and>
     (\<forall>j. j \<noteq> k \<longrightarrow> seqToTimeout s j \<noteq> Some hk) \<and>
     (\<forall>h d f. h \<noteq> hk \<longrightarrow> timeouts s h = Some (d, f) \<longrightarrow> timeout_seq f \<noteq> Some k) \<and>
     (\<forall>j c. seqToCallback s j = Some c \<longrightarrow> j \<noteq> k \<longrightarrow> callback_seq c \<noteq> k) \<and>
     (\<forall>j c. seqToCallback s j = Some c \<longrightarrow> callback_timeout c \<noteq> Some hk) \<and>
     (\<forall>c\<in>set (nextTicks s). callback_seq c \<noteq> k \<and> callback_timeout c \<noteq> Some hk) \<and>
     set (listeners s Ping) \<subseteq> {pingListener} \<and>
     set (listeners s PingReq) \<subseteq> {pingReqListener} \<and>
     set (listeners s Ack) \<subseteq> {ackListener}"

text \<open>
  The events that end the transaction of \<open>k\<close> with the timeout \<open>hk\<close>: a call of \<open>stop\<close>,
  the timeout firing, and an Ack for \<open>k\<close> arriving.
\<close>

fun ends_transaction :: "nat \<Rightarrow> handle \<Rightarrow> event \<Rightarrow> bool" where
  "ends_transaction k hk Stop = True"
| "ends_transaction k hk (TimeoutFires h mem) = (h = hk)"
| "ends_transaction k hk (Receive m hst) = (msg_type m = Ack \<and> data_seq (msg_data m) = k)"
| "ends_transaction k hk e = False"

section \<open>Properties\<close>

lemmas runtime_defs =
  setTimeout_def clearTimeout_def setInterval_def clearInterval_def setImmediate_def
  nextTick_def sendMessage_def net_on_def net_removeListener_def emit_Suspect_def

lemmas Default_defs =
  Default_interval_def Default_pingTimeout_def Default_pingReqTimeout_def
  Default_pingReqGroupSize_def

subsection \<open>Construction-time configuration\<close>

text \<open>
  C9, as stated: every supplied option overrides its default, also the value 0. The
  constructor reads each option with \<open>||\<close>, for which 0 is as good as absent: a
  detector built with every option 0 has the four defaults.
\<close>

theorem FailureDetector_zero_options_counterexample:
  "opt_interval \<lparr>opt_interval = Some 0, opt_pingTimeout = Some 0,
      opt_pingReqTimeout = Some 0, opt_pingReqGroupSize = Some 0,
      opt_debugIdentifier = None\<rparr> = Some 0 \<and>
   interval (FailureDetector \<lparr>opt_interval = Some 0, opt_pingTimeout = Some 0,
      opt_pingReqTimeout = Some 0, opt_pingReqGroupSize = Some 0,
      opt_debugIdentifier = None\<rparr>) \<noteq> 0 \<and>
   interval (FailureDetector \<lparr>opt_interval = Some 0, opt_pingTimeout = Some 0,
      opt_pingReqTimeout = Some 0, opt_pingReqGroupSize = Some 0,
      opt_debugIdentifier = None\<rparr>) = 20 \<and>
   pingTimeout (FailureDetector \<lparr>opt_interval = Some 0, opt_pingTimeout = Some 0,
      opt_pingReqTimeout = Some 0, opt_pingReqGroupSize = Some 0,
      opt_debugIdentifier = None\<rparr>) = 4 \<and>
   pingReqTimeout (FailureDetector \<lparr>opt_interval = Some 0, opt_pingTimeout = Some 0,
      opt_pingReqTimeout = Some 0, opt_pingReqGroupSize = Some 0,
      opt_debugIdentifier = None\<rparr>) = 12 \<and>
   pingReqGroupSize (FailureDetector \<lparr>opt_interval = Some 0, opt_pingTimeout = Some 0,
      opt_pingReqTimeout = Some 0, opt_pingReqGroupSize = Some 0,
      opt_debugIdentifier = None\<rparr>) = 3"
  by (simp add: FailureDetector_def js_or_def Default_defs)

text \<open>
  C9, amended: every supplied option other than 0 overrides its default; the defaults
  interval = 20, pingTimeout = 4, pingReqTimeout = 12, pingReqGroupSize = 3 are used
  when the option is not supplied or is 0.
\<close>

theorem FailureDetector_options:
  "(opt_interval opts = Some a \<and> a \<noteq> 0 \<longrightarrow> interval (FailureDetector opts) = a) \<and>
   (opt_interval opts = None \<or> opt_interval opts = Some 0 \<longrightarrow>
      interval (FailureDetector opts) = 20) \<and>
   (opt_pingTimeout opts = Some b \<and> b \<noteq> 0 \<longrightarrow> pingTimeout (FailureDetector opts) = b) \<and>
   (opt_pingTimeout opts = None \<or> opt_pingTimeout opts = Some 0 \<longrightarrow>
      pingTimeout (FailureDetector opts) = 4) \<and>
   (opt_pingReqTimeout opts = Some c \<and> c \<noteq> 0 \<longrightarrow>
      pingReqTimeout (FailureDetector opts) = c) \<and>
   (opt_pingReqTimeout opts = None \<or> opt_pingReqTimeout opts = Some 0 \<longrightarrow>
      pingReqTimeout (FailureDetector opts) = 12) \<and>
   (opt_pingReqGroupSize opts = Some d \<and> d \<noteq> 0 \<longrightarrow>
      pingReqGroupSize (FailureDetector opts) = d) \<and>
   (opt_pingReqGroupSize opts = None \<or> opt_pingReqGroupSize opts = Some 0 \<longrightarrow>
      pingReqGroupSize (FailureDetector opts) = 3)"
  by (auto simp: FailureDetector_def js_or_def Default_defs)

theorem FailureDetector_options_witness:
  "interval (FailureDetector \<lparr>opt_interval = Some 50, opt_pingTimeout = None,
      opt_pingReqTimeout = Some 0, opt_pingReqGroupSize = Some 2,
      opt_debugIdentifier = Some ''B''\<rparr>) = 50 \<and>
   pingTimeout (FailureDetector \<lparr>opt_interval = Some 50, opt_pingTimeout = None,
      opt_pingReqTimeout = Some 0, opt_pingReqGroupSize = Some 2,
      opt_debugIdentifier = Some ''B''\<rparr>) = 4 \<and>
   pingReqTimeout (FailureDetector \<lparr>opt_interval = Some 50, opt_pingTimeout = None,
      opt_pingReqTimeout = Some 0, opt_pingReqGroupSize = Some 2,
      opt_debugIdentifier = Some ''B''\<rparr>) = 12 \<and>
   pingReqGroupSize (FailureDetector \<lparr>opt_interval = Some 50, opt_pingTimeout = None,
      opt_pingReqTimeout = Some 0, opt_pingReqGroupSize = Some 2,
      opt_debugIdentifier = Some ''B''\<rparr>) = 2"
  using FailureDetector_options [of "\<lparr>opt_interval = Some 50, opt_pingTimeout = None,
      opt_pingReqTimeout = Some 0, opt_pingReqGroupSize = Some 2,
      opt_debugIdentifier = Some ''B''\<rparr>" 50 0 0 2]
  by simp

subsection \<open>A round with no relay\<close>

text \<open>
  C7: when the membership collaborator returns no relay, \<open>pingReq\<close> changes nothing: the
  state after the call is the state before it, so no suspicion timer is armed, no relay
  transaction is recorded, no message is sent and no signal is emitted, then or later.
  The escalation of a direct probe that timed out then does no more than clear the
  probe's sequence.
\<close>

theorem pingReq_no_relay:
  "mrandom mem (pingReqGroupSize s) = [] \<Longrightarrow>
     pingReq m mem s = s \<and>
     run_timeout_fn (receiveTimeout_pingMember sq m) mem s = clearSeq sq s \<and>
     emitted (run_timeout_fn (receiveTimeout_pingMember sq m) mem s) = emitted s \<and>
     sent (run_timeout_fn (receiveTimeout_pingMember sq m) mem s) = sent s \<and>
     nextHandle (run_timeout_fn (receiveTimeout_pingMember sq m) mem s) = nextHandle s \<and>
     seq (run_timeout_fn (receiveTimeout_pingMember sq m) mem s) = seq s"
  by (simp add: pingReq_def clearSeq_def clearTimeout_def Let_def split: option.splits)

theorem pingReq_no_relay_witness:
  "pingReq \<lparr>host = ''C''\<rparr> \<lparr>mnext = None, mrandom = (\<lambda>k. [])\<rparr>
       (pingMember (Some \<lparr>host = ''C''\<rparr>) (FailureDetector \<lparr>opt_interval = None,
          opt_pingTimeout = None, opt_pingReqTimeout = None, opt_pingReqGroupSize = None,
          opt_debugIdentifier = Some ''B''\<rparr>)) =
     pingMember (Some \<lparr>host = ''C''\<rparr>) (FailureDetector \<lparr>opt_interval = None,
          opt_pingTimeout = None, opt_pingReqTimeout = None, opt_pingReqGroupSize = None,
          opt_debugIdentifier = Some ''B''\<rparr>)"
  using pingReq_no_relay [of "\<lparr>mnext = None, mrandom = (\<lambda>k. [])\<rparr>"
      "pingMember (Some \<lparr>host = ''C''\<rparr>) (FailureDetector \<lparr>opt_interval = None,
          opt_pingTimeout = None, opt_pingReqTimeout = None, opt_pingReqGroupSize = None,
          opt_debugIdentifier = Some ''B''\<rparr>)" "\<lparr>host = ''C''\<rparr>" 0]
  by simp

subsection \<open>The host field of a Ping\<close>

text \<open>
  C8: every Ping the detector sends carries the sender's identity in its \<open>host\<close> field.
  The Ping of \<open>pingMember\<close> does (\<open>host: self.local\<close>); the Ping of \<open>onPingReq\<close> carries
  \<open>data.destination\<close>, the identity of the node the Ping is sent to. A detector whose
  identity is B, asked by A to probe C, sends C a Ping whose host is C.
\<close>

theorem onPingReq_ping_host:
  "sent (pingMember (Some m) s) =
     sent s @ [(\<lparr>msg_type = Ping,
                 msg_data = \<lparr>data_seq = seq s, data_host = local_id s,
                             data_destination = None\<rparr>\<rparr>, Some (host m))] \<and>
   sent (onPingReq d h s) =
     sent s @ [(\<lparr>msg_type = Ping,
                 msg_data = \<lparr>data_seq = seq s, data_host = data_destination d,
                             data_destination = None\<rparr>\<rparr>, data_destination d)] \<and>
   sent (step (Receive \<lparr>msg_type = PingReq,
                        msg_data = \<lparr>data_seq = 7, data_host = Some ''A'',
                                    data_destination = Some ''C''\<rparr>\<rparr> ''A'')
           (step Start (FailureDetector \<lparr>opt_interval = None, opt_pingTimeout = None,
              opt_pingReqTimeout = None, opt_pingReqGroupSize = None,
              opt_debugIdentifier = Some ''B''\<rparr>))) =
     [(\<lparr>msg_type = Ping,
        msg_data = \<lparr>data_seq = 0, data_host = Some ''C'', data_destination = None\<rparr>\<rparr>,
       Some ''C'')]"
  by (simp add: pingMember_def onPingReq_def start_def tick_def FailureDetector_def
      runtime_defs Let_def)

subsection \<open>Starting twice\<close>


















subsection \<open>The relay legs of a round\<close>

lemma legs_fields:
  "seq (fold (\<lambda>r. pingReqThroughMember m r t) rs s) = seq s + length rs \<and>
   nextHandle (fold (\<lambda>r. pingReqThroughMember m r t) rs s) = nextHandle s + length rs \<and>
   local_id (fold (\<lambda>r. pingReqThroughMember m r t) rs s) = local_id s \<and>
   emitted (fold (\<lambda>r. pingReqThroughMember m r t) rs s) = emitted s \<and>
   pingReqTimeout (fold (\<lambda>r. pingReqThroughMember m r t) rs s) = pingReqTimeout s"
  by (induction rs arbitrary: s) (simp_all add: pingReqThroughMember_def runtime_defs Let_def)

lemma legs_sent:
  "sent (fold (\<lambda>r. pingReqThroughMember m r t) rs s) =
     sent s @ map (leg_message s m) (enumerate (seq s) rs)"
proof (induction rs arbitrary: s)
  case Nil
  then show ?case by simp
next
  case (Cons r rs)
  have a: "sent (pingReqThroughMember m r t s) = sent s @ [leg_message s m (seq s, r)]"
    and b: "seq (pingReqThroughMember m r t s) = Suc (seq s)"
    and c: "leg_message (pingReqThroughMember m r t s) m = leg_message s m"
    by (simp_all add: pingReqThroughMember_def runtime_defs Let_def leg_message_def)
  show ?case by (simp add: Cons.IH a b c)
qed

lemma legs_callbacks:
  "seqToCallback (fold (\<lambda>r. pingReqThroughMember m r t) rs s) k =
     (if seq s \<le> k \<and> k < seq s + length rs then Some (pingReqAckReceiveCallback k t)
      else seqToCallback s k)"
proof (induction rs arbitrary: s)
  case Nil
  then show ?case by auto
next
  case (Cons r rs)
  have a: "seqToCallback (pingReqThroughMember m r t s) =
      (seqToCallback s)(seq s \<mapsto> pingReqAckReceiveCallback (seq s) t)"
    and b: "seq (pingReqThroughMember m r t s) = Suc (seq s)"
    by (simp_all add: pingReqThroughMember_def runtime_defs Let_def)
  show ?case by (auto simp add: Cons.IH a b)
qed

lemma legs_timeouts_old:
  "h < nextHandle s \<Longrightarrow> timeouts (fold (\<lambda>r. pingReqThroughMember m r t) rs s) h = timeouts s h"
proof (induction rs arbitrary: s)
  case Nil
  then show ?case by simp
next
  case (Cons r rs)
  have a: "timeouts (pingReqThroughMember m r t s) h = timeouts s h"
    and b: "nextHandle (pingReqThroughMember m r t s) = Suc (nextHandle s)"
    using Cons.prems by (simp_all add: pingReqThroughMember_def runtime_defs Let_def)
  show ?case using Cons.IH [of "pingReqThroughMember m r t s"] Cons.prems by (simp add: a b)
qed

lemma pingReq_sent:
  "sent (pingReq m mem s) =
     sent s @ map (leg_message s m) (enumerate (seq s) (mrandom mem (pingReqGroupSize s)))"
  by (simp add: pingReq_def Let_def legs_sent setTimeout_def leg_message_def)

lemma pingReq_timeouts_old:
  "h < nextHandle s \<Longrightarrow> timeouts (pingReq m mem s) h = timeouts s h"
  by (simp add: pingReq_def Let_def legs_timeouts_old setTimeout_def)


lemma pingReq_nextHandle: "nextHandle s \<le> nextHandle (pingReq m mem s)"
  by (simp add: pingReq_def Let_def legs_fields setTimeout_def)

subsection \<open>Handles\<close>

lemma handles_ok_clearSeq: "handles_ok s \<Longrightarrow> handles_ok (clearSeq k s)"
  by (auto simp: handles_ok_def clearSeq_def runtime_defs Let_def split: option.splits)

lemma handles_ok_leg: "handles_ok s \<Longrightarrow> handles_ok (pingReqThroughMember m r t s)"
  by (auto simp: handles_ok_def pingReqThroughMember_def runtime_defs Let_def less_Suc_eq)

lemma handles_ok_legs:
  "handles_ok s \<Longrightarrow> handles_ok (fold (\<lambda>r. pingReqThroughMember m r t) rs s)"
  by (induction rs arbitrary: s) (auto simp: handles_ok_leg)

lemma handles_ok_pingReq: "handles_ok s \<Longrightarrow> handles_ok (pingReq m mem s)"
proof -
  assume a: "handles_ok s"
  have "handles_ok (snd (setTimeout (pingReqTimeout_fn m) (pingReqTimeout s) s))"
    using a by (auto simp: handles_ok_def runtime_defs less_Suc_eq)
  then show ?thesis
    by (auto simp: pingReq_def Let_def a handles_ok_legs split: prod.splits)
qed

lemma handles_ok_pingMember: "handles_ok s \<Longrightarrow> handles_ok (pingMember mo s)"
  by (auto simp: handles_ok_def pingMember_def runtime_defs Let_def less_Suc_eq
      split: option.splits)

lemma handles_ok_start: "handles_ok s \<Longrightarrow> handles_ok (start s)"
  by (auto simp: handles_ok_def start_def tick_def runtime_defs Let_def less_Suc_eq)

lemma handles_ok_stop: "handles_ok (stop s)"
  by (auto simp: handles_ok_def stop_def runtime_defs Let_def split: option.splits)

lemma handles_ok_call_listener: "handles_ok s \<Longrightarrow> handles_ok (call_listener l d h s)"
  by (cases l)
     (auto simp: handles_ok_def onPing_def onPingReq_def onAck_def clearSeq_def runtime_defs
        Let_def less_Suc_eq split: option.splits)

lemma handles_ok_listeners:
  "handles_ok s \<Longrightarrow> handles_ok (fold (\<lambda>l. call_listener l d h) ls s)"
  by (induction ls arbitrary: s) (auto simp: handles_ok_call_listener)

lemma handles_ok_upd:
  "handles_ok s \<Longrightarrow> handles_ok (s\<lparr>timeouts := x\<rparr>)"
  "handles_ok s \<Longrightarrow> handles_ok (s\<lparr>nextTicks := y\<rparr>)"
  "handles_ok s \<Longrightarrow> handles_ok (s\<lparr>immediates := z\<rparr>)"
  by (simp_all add: handles_ok_def)

lemma handles_ok_timeout_fn: "handles_ok s \<Longrightarrow> handles_ok (run_timeout_fn f mem s)"
  by (cases f)
     (auto simp: handles_ok_clearSeq handles_ok_pingReq, auto simp: handles_ok_def runtime_defs)

lemma handles_ok_callback: "handles_ok s \<Longrightarrow> handles_ok (run_callback cb s)"
  by (cases cb)
     (auto simp: handles_ok_def clearSeq_def runtime_defs Let_def split: option.splits)

lemma handles_ok_step: "handles_ok s \<Longrightarrow> handles_ok (step e s)"
  by (cases e)
     (auto simp: handles_ok_start handles_ok_stop handles_ok_timeout_fn handles_ok_callback
        handles_ok_upd handles_ok_listeners handles_ok_pingMember ping_def
        split: option.splits list.splits)

lemma handles_ok_run: "handles_ok s \<Longrightarrow> handles_ok (run es s)"
  by (induction es arbitrary: s) (auto simp: handles_ok_step)

lemma handles_ok_FailureDetector: "handles_ok (FailureDetector opts)"
  by (simp add: handles_ok_def FailureDetector_def)

subsection \<open>A pending timeout that no table entry holds\<close>

lemma round_armed_clearSeq: "round_armed h x s \<Longrightarrow> round_armed h x (clearSeq k s)"
  by (auto simp: round_armed_def clearSeq_def runtime_defs Let_def split: option.splits)

lemma round_armed_leg: "round_armed h x s \<Longrightarrow> round_armed h x (pingReqThroughMember m r t s)"
  by (auto simp: round_armed_def pingReqThroughMember_def runtime_defs Let_def)

lemma round_armed_legs:
  "round_armed h x s \<Longrightarrow> round_armed h x (fold (\<lambda>r. pingReqThroughMember m r t) rs s)"
  by (induction rs arbitrary: s) (auto simp: round_armed_leg)

lemma round_armed_pingReq: "round_armed h x s \<Longrightarrow> round_armed h x (pingReq m mem s)"
proof -
  assume a: "round_armed h x s"
  have "round_armed h x (snd (setTimeout (pingReqTimeout_fn m) (pingReqTimeout s) s))"
    using a by (auto simp: round_armed_def runtime_defs)
  then show ?thesis
    by (auto simp: pingReq_def Let_def a round_armed_legs split: prod.splits)
qed

lemma round_armed_pingMember: "round_armed h x s \<Longrightarrow> round_armed h x (pingMember mo s)"
  by (auto simp: round_armed_def pingMember_def runtime_defs Let_def split: option.splits)

lemma round_armed_start: "round_armed h x s \<Longrightarrow> round_armed h x (start s)"
  by (auto simp: round_armed_def start_def tick_def runtime_defs Let_def)

lemma round_armed_stop: "round_armed h x s \<Longrightarrow> round_armed h x (stop s)"
  by (auto simp: round_armed_def stop_def runtime_defs Let_def ran_def restrict_map_def
      split: option.splits)

lemma round_armed_call_listener:
  "round_armed h x s \<Longrightarrow> round_armed h x (call_listener l d hst s)"
  by (cases l)
     (auto simp: round_armed_def onPing_def onPingReq_def onAck_def clearSeq_def runtime_defs
        Let_def split: option.splits)

lemma round_armed_listeners:
  "round_armed h x s \<Longrightarrow> round_armed h x (fold (\<lambda>l. call_listener l d hst) ls s)"
  by (induction ls arbitrary: s) (auto simp: round_armed_call_listener)

lemma round_armed_upd:
  "round_armed h x s \<Longrightarrow> h' \<noteq> h \<Longrightarrow> round_armed h x (s\<lparr>timeouts := (timeouts s)(h' := None)\<rparr>)"
  "round_armed h x s \<Longrightarrow> round_armed h x (s\<lparr>nextTicks := y\<rparr>)"
  "round_armed h x s \<Longrightarrow> round_armed h x (s\<lparr>immediates := z\<rparr>)"
  by (simp_all add: round_armed_def)

lemma round_armed_timeout_fn: "round_armed h x s \<Longrightarrow> round_armed h x (run_timeout_fn f mem s)"
  by (cases f)
     (auto simp: round_armed_clearSeq round_armed_pingReq, auto simp: round_armed_def runtime_defs)

lemma round_armed_callback:
  "round_armed h x s \<Longrightarrow> (\<forall>sq. cb \<noteq> pingReqAckReceiveCallback sq h) \<Longrightarrow>
     round_armed h x (run_callback cb s)"
  by (cases cb)
     (auto simp: round_armed_def clearSeq_def runtime_defs Let_def split: option.splits)

lemma round_armed_step:
  "round_armed h x s \<Longrightarrow> \<not> acks_round h e s \<Longrightarrow> \<not> fires_timeout h e \<Longrightarrow>
     round_armed h x (step e s)"
proof (cases e)
  case NextTickRuns
  assume a: "round_armed h x s" and b: "\<not> acks_round h e s"
  show ?thesis
  proof (cases "nextTicks s")
    case Nil
    then show ?thesis using a NextTickRuns by simp
  next
    case (Cons cb cbs)
    have "\<forall>sq. cb \<noteq> pingReqAckReceiveCallback sq h"
      using b NextTickRuns Cons by auto
    then show ?thesis
      using a NextTickRuns Cons by (simp add: round_armed_callback round_armed_upd)
  qed
qed (auto simp: round_armed_start round_armed_stop round_armed_timeout_fn
        round_armed_upd round_armed_listeners round_armed_pingMember ping_def
        split: option.splits)

lemma round_armed_run:
  "round_armed h x s \<Longrightarrow> undisturbed h es s \<Longrightarrow> round_armed h x (run es s)"
  by (induction es arbitrary: s) (auto simp: round_armed_step)

subsection \<open>A timeout that is gone stays gone\<close>

lemma handle_spent_clearSeq: "handle_spent h s \<Longrightarrow> handle_spent h (clearSeq k s)"
  by (auto simp: handle_spent_def clearSeq_def runtime_defs Let_def split: option.splits)

lemma handle_spent_leg: "handle_spent h s \<Longrightarrow> handle_spent h (pingReqThroughMember m r t s)"
  by (auto simp: handle_spent_def pingReqThroughMember_def runtime_defs Let_def)

lemma handle_spent_legs:
  "handle_spent h s \<Longrightarrow> handle_spent h (fold (\<lambda>r. pingReqThroughMember m r t) rs s)"
  by (induction rs arbitrary: s) (auto simp: handle_spent_leg)

lemma handle_spent_pingReq: "handle_spent h s \<Longrightarrow> handle_spent h (pingReq m mem s)"
proof -
  assume a: "handle_spent h s"
  have "handle_spent h (snd (setTimeout (pingReqTimeout_fn m) (pingReqTimeout s) s))"
    using a by (auto simp: handle_spent_def runtime_defs)
  then show ?thesis
    by (auto simp: pingReq_def Let_def a handle_spent_legs split: prod.splits)
qed

lemma handle_spent_pingMember: "handle_spent h s \<Longrightarrow> handle_spent h (pingMember mo s)"
  by (auto simp: handle_spent_def pingMember_def runtime_defs Let_def split: option.splits)

lemma handle_spent_start: "handle_spent h s \<Longrightarrow> handle_spent h (start s)"
  by (auto simp: handle_spent_def start_def tick_def runtime_defs Let_def)

lemma handle_spent_stop: "handle_spent h s \<Longrightarrow> handle_spent h (stop s)"
  by (auto simp: handle_spent_def stop_def runtime_defs Let_def restrict_map_def
      split: option.splits)

lemma handle_spent_call_listener:
  "handle_spent h s \<Longrightarrow> handle_spent h (call_listener l d hst s)"
  by (cases l)
     (auto simp: handle_spent_def onPing_def onPingReq_def onAck_def clearSeq_def runtime_defs
        Let_def split: option.splits)

lemma handle_spent_listeners:
  "handle_spent h s \<Longrightarrow> handle_spent h (fold (\<lambda>l. call_listener l d hst) ls s)"
  by (induction ls arbitrary: s) (auto simp: handle_spent_call_listener)

lemma handle_spent_upd:
  "handle_spent h s \<Longrightarrow> handle_spent h (s\<lparr>timeouts := (timeouts s)(h' := None)\<rparr>)"
  "handle_spent h s \<Longrightarrow> handle_spent h (s\<lparr>nextTicks := y\<rparr>)"
  "handle_spent h s \<Longrightarrow> handle_spent h (s\<lparr>immediates := z\<rparr>)"
  by (simp_all add: handle_spent_def)

lemma handle_spent_timeout_fn: "handle_spent h s \<Longrightarrow> handle_spent h (run_timeout_fn f mem s)"
  by (cases f)
     (auto simp: handle_spent_clearSeq handle_spent_pingReq,
      auto simp: handle_spent_def runtime_defs)

lemma handle_spent_callback: "handle_spent h s \<Longrightarrow> handle_spent h (run_callback cb s)"
  by (cases cb)
     (auto simp: handle_spent_def clearSeq_def runtime_defs Let_def split: option.splits)

lemma handle_spent_step: "handle_spent h s \<Longrightarrow> handle_spent h (step e s)"
  by (cases e)
     (auto simp: handle_spent_start handle_spent_stop handle_spent_timeout_fn
        handle_spent_callback handle_spent_upd handle_spent_listeners handle_spent_pingMember
        ping_def split: option.splits list.splits)

lemma handle_spent_run: "handle_spent h s \<Longrightarrow> handle_spent h (run es s)"
  by (induction es arbitrary: s) (auto simp: handle_spent_step)


subsection \<open>An indirect-probe round\<close>

lemma round_armed_pingReq_new:
  assumes "handles_ok s" and "mrandom mem (pingReqGroupSize s) \<noteq> []"
  shows "round_armed (nextHandle s) (pingReqTimeout s, pingReqTimeout_fn m) (pingReq m mem s)"
proof -
  have "round_armed (nextHandle s) (pingReqTimeout s, pingReqTimeout_fn m)
      (snd (setTimeout (pingReqTimeout_fn m) (pingReqTimeout s) s))"
    using assms(1) by (auto simp: round_armed_def handles_ok_def setTimeout_def)
  then show ?thesis
    using assms(2) by (simp add: pingReq_def Let_def setTimeout_def round_armed_legs)
qed

lemma pingReq_callbacks:
  assumes "mrandom mem (pingReqGroupSize s) \<noteq> []"
    and "i < length (mrandom mem (pingReqGroupSize s))"
  shows "seqToCallback (pingReq m mem s) (seq s + i) =
    Some (pingReqAckReceiveCallback (seq s + i) (nextHandle s))"
  using assms by (simp add: pingReq_def Let_def setTimeout_def legs_callbacks)

lemma suspect_fires:
  assumes "round_armed h (d, pingReqTimeout_fn m) t"
  shows "emitted (step (TimeoutFires h mem) t) = emitted t @ [m]"
    and "handle_spent h (step (TimeoutFires h mem) t)"
  using assms by (simp_all add: round_armed_def handle_spent_def emit_Suspect_def)

lemma ack_cancels:
  assumes "acks_round h NextTickRuns t" and "h < nextHandle t"
  shows "handle_spent h (step NextTickRuns t)"
  using assms
  by (auto simp: handle_spent_def clearSeq_def runtime_defs Let_def
      split: list.splits callback.splits option.splits)

lemma spent_cannot_fire:
  "handle_spent h t \<Longrightarrow> step (TimeoutFires h mem) t = t"
  by (simp add: handle_spent_def)

subsection \<open>Stopping\<close>

text \<open>
  C2: after \<open>stop()\<close> no timer armed before the call fires its callback, no pending
  suspicion timer emits \<open>Suspect\<close>, and no further message is sent. \<open>stop\<close> clears the
  interval of \<open>tickHandle\<close> and the timeouts recorded in \<open>seqToTimeout\<close>; the suspicion
  timeout of a round is recorded nowhere, and neither is the immediate of \<open>tick\<close>.
  A detector B is started and probes C, the probe times out and a round with the relay R1
  begins (suspicion timeout 2), then \<open>stop\<close> is called: nothing has been emitted so far,
  and when timeout 2 fires, \<open>Suspect(C)\<close> is emitted. A detector that is started and
  stopped at once still runs the immediate of \<open>tick\<close>, which sends a Ping to C and arms
  its timeout.
\<close>

theorem stop_leaves_suspicion_timer:
  "emitted (run [Start,
                 ImmediateRuns \<lparr>mnext = Some \<lparr>host = ''C''\<rparr>,
                                mrandom = (\<lambda>k. take k [\<lparr>host = ''R1''\<rparr>])\<rparr>,
                 TimeoutFires 1 \<lparr>mnext = None, mrandom = (\<lambda>k. take k [\<lparr>host = ''R1''\<rparr>])\<rparr>,
                 Stop]
       (FailureDetector \<lparr>opt_interval = None, opt_pingTimeout = None,
          opt_pingReqTimeout = None, opt_pingReqGroupSize = None,
          opt_debugIdentifier = Some ''B''\<rparr>)) = [] \<and>
   emitted (run [Start,
                 ImmediateRuns \<lparr>mnext = Some \<lparr>host = ''C''\<rparr>,
                                mrandom = (\<lambda>k. take k [\<lparr>host = ''R1''\<rparr>])\<rparr>,
                 TimeoutFires 1 \<lparr>mnext = None, mrandom = (\<lambda>k. take k [\<lparr>host = ''R1''\<rparr>])\<rparr>,
                 Stop,
                 TimeoutFires 2 \<lparr>mnext = None, mrandom = (\<lambda>k. [])\<rparr>]
       (FailureDetector \<lparr>opt_interval = None, opt_pingTimeout = None,
          opt_pingReqTimeout = None, opt_pingReqGroupSize = None,
          opt_debugIdentifier = Some ''B''\<rparr>)) = [\<lparr>host = ''C''\<rparr>] \<and>
   sent (run [Start, Stop]
       (FailureDetector \<lparr>opt_interval = None, opt_pingTimeout = None,
          opt_pingReqTimeout = None, opt_pingReqGroupSize = None,
          opt_debugIdentifier = Some ''B''\<rparr>)) = [] \<and>
   sent (run [Start, Stop,
              ImmediateRuns \<lparr>mnext = Some \<lparr>host = ''C''\<rparr>, mrandom = (\<lambda>k. [])\<rparr>]
       (FailureDetector \<lparr>opt_interval = None, opt_pingTimeout = None,
          opt_pingReqTimeout = None, opt_pingReqGroupSize = None,
          opt_debugIdentifier = Some ''B''\<rparr>)) =
     [(\<lparr>msg_type = Ping,
        msg_data = \<lparr>data_seq = 0, data_host = Some ''B'', data_destination = None\<rparr>\<rparr>,
       Some ''C'')] \<and>
   timeouts (run [Start, Stop,
              ImmediateRuns \<lparr>mnext = Some \<lparr>host = ''C''\<rparr>, mrandom = (\<lambda>k. [])\<rparr>]
       (FailureDetector \<lparr>opt_interval = None, opt_pingTimeout = None,
          opt_pingReqTimeout = None, opt_pingReqGroupSize = None,
          opt_debugIdentifier = Some ''B''\<rparr>)) 1 =
     Some (4, receiveTimeout_pingMember 0 \<lparr>host = ''C''\<rparr>)"
  by (simp add: FailureDetector_def js_or_def Default_defs start_def stop_def tick_def
      ping_def pingMember_def pingReq_def pingReqThroughMember_def clearSeq_def runtime_defs
      Let_def ran_def restrict_map_def)

subsection \<open>Completion callbacks\<close>

lemma callbacks_ok_clearSeq: "callbacks_ok s \<Longrightarrow> callbacks_ok (clearSeq k s)"
  by (auto simp: callbacks_ok_def clearSeq_def runtime_defs Let_def split: option.splits)

lemma callbacks_ok_leg: "callbacks_ok s \<Longrightarrow> callbacks_ok (pingReqThroughMember m r t s)"
  by (fastforce simp: callbacks_ok_def pingReqThroughMember_def runtime_defs Let_def less_Suc_eq)

lemma callbacks_ok_legs:
  "callbacks_ok s \<Longrightarrow> callbacks_ok (fold (\<lambda>r. pingReqThroughMember m r t) rs s)"
  by (induction rs arbitrary: s) (auto simp: callbacks_ok_leg)

lemma callbacks_ok_pingReq: "callbacks_ok s \<Longrightarrow> callbacks_ok (pingReq m mem s)"
proof -
  assume a: "callbacks_ok s"
  have "callbacks_ok (snd (setTimeout (pingReqTimeout_fn m) (pingReqTimeout s) s))"
    using a by (auto simp: callbacks_ok_def runtime_defs)
  then show ?thesis
    by (auto simp: pingReq_def Let_def a callbacks_ok_legs split: prod.splits)
qed

lemma callbacks_ok_pingMember: "callbacks_ok s \<Longrightarrow> callbacks_ok (pingMember mo s)"
  by (fastforce simp: callbacks_ok_def pingMember_def runtime_defs Let_def less_Suc_eq
      split: option.splits)

lemma callbacks_ok_start: "callbacks_ok s \<Longrightarrow> callbacks_ok (start s)"
  by (auto simp: callbacks_ok_def start_def tick_def runtime_defs Let_def)

lemma callbacks_ok_stop: "callbacks_ok s \<Longrightarrow> callbacks_ok (stop s)"
  by (auto simp: callbacks_ok_def stop_def runtime_defs Let_def split: option.splits)

lemma callbacks_ok_onPing: "callbacks_ok s \<Longrightarrow> callbacks_ok (onPing d h s)"
  by (auto simp: callbacks_ok_def onPing_def runtime_defs)

lemma callbacks_ok_onPingReq: "callbacks_ok s \<Longrightarrow> callbacks_ok (onPingReq d h s)"
  by (fastforce simp: callbacks_ok_def onPingReq_def runtime_defs Let_def less_Suc_eq)

lemma callbacks_ok_onAck: "callbacks_ok s \<Longrightarrow> callbacks_ok (onAck d s)"
  by (fastforce simp: callbacks_ok_def onAck_def clearSeq_def runtime_defs Let_def
      split: option.splits)

lemma callbacks_ok_call_listener: "callbacks_ok s \<Longrightarrow> callbacks_ok (call_listener l d h s)"
  by (cases l) (simp_all add: callbacks_ok_onPing callbacks_ok_onPingReq callbacks_ok_onAck)

lemma callbacks_ok_listeners:
  "callbacks_ok s \<Longrightarrow> callbacks_ok (fold (\<lambda>l. call_listener l d h) ls s)"
  by (induction ls arbitrary: s) (auto simp: callbacks_ok_call_listener)

lemma callbacks_ok_upd:
  "callbacks_ok s \<Longrightarrow> callbacks_ok (s\<lparr>timeouts := x\<rparr>)"
  "callbacks_ok s \<Longrightarrow> callbacks_ok (s\<lparr>immediates := z\<rparr>)"
  by (simp_all add: callbacks_ok_def)

lemma callbacks_ok_timeout_fn: "callbacks_ok s \<Longrightarrow> callbacks_ok (run_timeout_fn f mem s)"
  by (cases f)
     (auto simp: callbacks_ok_clearSeq callbacks_ok_pingReq,
      auto simp: callbacks_ok_def runtime_defs)

lemma callbacks_ok_pop:
  "callbacks_ok s \<Longrightarrow> nextTicks s = cb # cbs \<Longrightarrow> callbacks_ok (s\<lparr>nextTicks := cbs\<rparr>)"
  by (auto simp: callbacks_ok_def)

lemma callbacks_ok_callback: "callbacks_ok s \<Longrightarrow> callbacks_ok (run_callback cb s)"
  by (cases cb)
     (auto simp: callbacks_ok_def clearSeq_def runtime_defs Let_def split: option.splits)

lemma callbacks_ok_step: "callbacks_ok s \<Longrightarrow> callbacks_ok (step e s)"
  by (cases e)
     (auto simp: callbacks_ok_start callbacks_ok_stop callbacks_ok_timeout_fn
        callbacks_ok_callback callbacks_ok_pop callbacks_ok_upd callbacks_ok_listeners
        callbacks_ok_pingMember ping_def
        split: option.splits list.splits)

lemma callbacks_ok_run: "callbacks_ok s \<Longrightarrow> callbacks_ok (run es s)"
  by (induction es arbitrary: s) (auto simp: callbacks_ok_step)

lemma callbacks_ok_FailureDetector: "callbacks_ok (FailureDetector opts)"
  by (simp add: callbacks_ok_def FailureDetector_def)


lemma callback_done_clearSeq: "callback_done k s \<Longrightarrow> callback_done k (clearSeq j s)"
  by (auto simp: callback_done_def callbacks_ok_clearSeq)
     (auto simp: clearSeq_def runtime_defs Let_def split: option.splits)

lemma callback_done_leg:
  "callback_done k s \<Longrightarrow> callback_done k (pingReqThroughMember m r t s)"
  by (auto simp: callback_done_def callbacks_ok_leg)
     (auto simp: pingReqThroughMember_def runtime_defs Let_def)

lemma callback_done_legs:
  "callback_done k s \<Longrightarrow> callback_done k (fold (\<lambda>r. pingReqThroughMember m r t) rs s)"
  by (induction rs arbitrary: s) (auto simp: callback_done_leg)

lemma callback_done_pingReq: "callback_done k s \<Longrightarrow> callback_done k (pingReq m mem s)"
proof -
  assume a: "callback_done k s"
  have "callback_done k (snd (setTimeout (pingReqTimeout_fn m) (pingReqTimeout s) s))"
    using a by (auto simp: callback_done_def callbacks_ok_def runtime_defs)
  then show ?thesis
    by (auto simp: pingReq_def Let_def a callback_done_legs split: prod.splits)
qed

lemma callback_done_pingMember: "callback_done k s \<Longrightarrow> callback_done k (pingMember mo s)"
  by (auto simp: callback_done_def callbacks_ok_pingMember)
     (auto simp: pingMember_def runtime_defs Let_def split: option.splits)

lemma callback_done_start: "callback_done k s \<Longrightarrow> callback_done k (start s)"
  by (auto simp: callback_done_def callbacks_ok_start)
     (auto simp: start_def tick_def runtime_defs Let_def)

lemma callback_done_stop: "callback_done k s \<Longrightarrow> callback_done k (stop s)"
  by (auto simp: callback_done_def callbacks_ok_stop)
     (auto simp: stop_def runtime_defs Let_def split: option.splits)

lemma callback_done_call_listener:
  "callback_done k s \<Longrightarrow> callback_done k (call_listener l d h s)"
proof (cases l)
  case pingListener
  assume "callback_done k s"
  then show ?thesis
    unfolding pingListener
    by (auto simp: callback_done_def callbacks_ok_onPing) (auto simp: onPing_def runtime_defs)
next
  case pingReqListener
  assume "callback_done k s"
  then show ?thesis
    unfolding pingReqListener
    by (auto simp: callback_done_def callbacks_ok_onPingReq)
       (auto simp: onPingReq_def runtime_defs Let_def)
next
  case ackListener
  assume a: "callback_done k s"
  then have ok: "callbacks_ok (onAck d s)"
    by (simp add: callback_done_def callbacks_ok_onAck)
  have "seqToCallback (onAck d s) k = None \<and> k \<notin> callback_seq ` set (nextTicks (onAck d s)) \<and>
      k < seq (onAck d s)"
    using a
    by (fastforce simp: callback_done_def callbacks_ok_def onAck_def clearSeq_def runtime_defs
        Let_def split: option.splits)
  then show ?thesis
    unfolding ackListener using ok by (simp add: callback_done_def)
qed

lemma callback_done_listeners:
  "callback_done k s \<Longrightarrow> callback_done k (fold (\<lambda>l. call_listener l d h) ls s)"
  by (induction ls arbitrary: s) (auto simp: callback_done_call_listener)

lemma callback_done_upd:
  "callback_done k s \<Longrightarrow> callback_done k (s\<lparr>timeouts := x\<rparr>)"
  "callback_done k s \<Longrightarrow> callback_done k (s\<lparr>immediates := z\<rparr>)"
  by (simp_all add: callback_done_def callbacks_ok_def)

lemma callback_done_timeout_fn:
  "callback_done k s \<Longrightarrow> callback_done k (run_timeout_fn f mem s)"
  by (cases f)
     (auto simp: callback_done_clearSeq callback_done_pingReq,
      auto simp: callback_done_def callbacks_ok_def runtime_defs)

lemma callback_done_pop:
  "callback_done k s \<Longrightarrow> nextTicks s = cb # cbs \<Longrightarrow> callback_done k (s\<lparr>nextTicks := cbs\<rparr>)"
  by (auto simp: callback_done_def callbacks_ok_def)

lemma callback_done_callback: "callback_done k s \<Longrightarrow> callback_done k (run_callback cb s)"
proof -
  assume a: "callback_done k s"
  then have ok: "callbacks_ok (run_callback cb s)"
    by (simp add: callback_done_def callbacks_ok_callback)
  have "seqToCallback (run_callback cb s) k = None \<and>
      k \<notin> callback_seq ` set (nextTicks (run_callback cb s)) \<and> k < seq (run_callback cb s)"
    using a
    by (cases cb)
       (auto simp: callback_done_def clearSeq_def runtime_defs Let_def split: option.splits)
  then show ?thesis using ok by (simp add: callback_done_def)
qed

lemma callback_done_step: "callback_done k s \<Longrightarrow> callback_done k (step e s)"
  by (cases e)
     (auto simp: callback_done_start callback_done_stop callback_done_timeout_fn
        callback_done_callback callback_done_pop callback_done_upd callback_done_listeners
        callback_done_pingMember ping_def
        split: option.splits list.splits)

lemma callback_done_not_run: "callback_done k s \<Longrightarrow> \<not> runs_callback k e s"
  by (cases e) (auto simp: callback_done_def split: list.splits)

lemma callback_done_runs: "callback_done k s \<Longrightarrow> callback_runs k es s = 0"
  by (induction es arbitrary: s) (auto simp: callback_done_step callback_done_not_run)

lemma callback_done_after_run:
  assumes "callbacks_ok s" and "runs_callback k e s"
  shows "callback_done k (step e s)"
proof (cases e)
  case NextTickRuns
  then obtain cb cbs where q: "nextTicks s = cb # cbs" and k: "callback_seq cb = k"
    using assms(2) by (auto split: list.splits)
  have ok: "callbacks_ok (step e s)"
    using assms(1) by (rule callbacks_ok_step)
  have "seqToCallback (step e s) k = None \<and> k \<notin> callback_seq ` set (nextTicks (step e s)) \<and>
      k < seq (step e s)"
    using assms(1) q k unfolding NextTickRuns
    by (cases cb)
       (auto simp: callbacks_ok_def clearSeq_def runtime_defs Let_def split: option.splits)
  then show ?thesis using ok by (simp add: callback_done_def)
qed (use assms(2) in auto)

lemma callback_runs_le_1: "callbacks_ok s \<Longrightarrow> callback_runs k es s \<le> 1"
proof (induction es arbitrary: s)
  case Nil
  then show ?case by simp
next
  case (Cons e es)
  show ?case
  proof (cases "runs_callback k e s")
    case True
    have "callback_done k (step e s)"
      using Cons.prems True by (rule callback_done_after_run)
    then have "callback_runs k es (step e s) = 0"
      by (rule callback_done_runs)
    then show ?thesis using True by simp
  next
    case False
    have "callbacks_ok (step e s)"
      using Cons.prems by (rule callbacks_ok_step)
    then have "callback_runs k es (step e s) \<le> 1"
      by (rule Cons.IH)
    then show ?thesis using False by simp
  qed
qed


subsection \<open>Clearing a sequence\<close>

lemma clearSeq_twice: "clearSeq sq (clearSeq sq s) = clearSeq sq s"
  by (simp add: clearSeq_def clearTimeout_def Let_def split: option.splits)

lemma clearSeq_many: "(clearSeq sq ^^ Suc n) s = clearSeq sq s"
  by (induction n) (simp_all add: clearSeq_twice)

lemma clearSeq_unknown:
  "seqToTimeout s sq = None \<Longrightarrow> seqToCallback s sq = None \<Longrightarrow> clearSeq sq s = s"
  by (simp add: clearSeq_def clearTimeout_def Let_def fun_upd_idem)

lemma onAck_cleared: "onAck d (clearSeq (data_seq d) s) = clearSeq (data_seq d) s"
  by (simp add: onAck_def clearSeq_def clearTimeout_def Let_def split: option.splits)

lemma onAck_twice: "onAck d (onAck d s) = onAck d s"
  by (simp add: onAck_def clearSeq_def clearTimeout_def nextTick_def Let_def
      split: option.splits)

lemma ackListeners_inert:
  "onAck d x = x \<Longrightarrow> set ls \<subseteq> {ackListener} \<Longrightarrow> fold (\<lambda>l. call_listener l d h) ls x = x"
  by (induction ls) auto

text \<open>
  C5: \<open>clearSeq\<close> is idempotent and total. Clearing a sequence twice, or any number of
  times, gives the state that clearing it once gives; clearing a sequence that has no
  timeout and no callback (never allocated, or cleared already) gives the state back
  unchanged. An Ack for a cleared sequence therefore queues no callback and changes
  nothing, as a handler call and as a message delivered to the registered listeners, and
  a second Ack for a sequence does nothing the first did not. In a run of the detector from
  its construction, through any events, the completion callback of a sequence runs at
  most once.
\<close>

theorem clearSeq_idempotent:
  "clearSeq sq (clearSeq sq s) = clearSeq sq s \<and>
   (clearSeq sq ^^ Suc n) s = clearSeq sq s \<and>
   seqToTimeout (clearSeq sq s) sq = None \<and>
   seqToCallback (clearSeq sq s) sq = None \<and>
   (seqToTimeout s sq = None \<and> seqToCallback s sq = None \<longrightarrow> clearSeq sq s = s) \<and>
   onAck d (clearSeq (data_seq d) s) = clearSeq (data_seq d) s \<and>
   onAck d (onAck d s) = onAck d s \<and>
   (set (listeners s Ack) \<subseteq> {ackListener} \<longrightarrow>
      step (Receive \<lparr>msg_type = Ack, msg_data = d\<rparr> h) (clearSeq (data_seq d) s) =
        clearSeq (data_seq d) s) \<and>
   callback_runs k es (FailureDetector opts) \<le> 1"
proof -
  have a: "seqToTimeout (clearSeq sq s) sq = None \<and> seqToCallback (clearSeq sq s) sq = None"
    by (simp add: clearSeq_def clearTimeout_def Let_def split: option.splits)
  have l: "listeners (clearSeq (data_seq d) s) = listeners s"
    by (simp add: clearSeq_def clearTimeout_def Let_def split: option.splits)
  have b: "step (Receive \<lparr>msg_type = Ack, msg_data = d\<rparr> h) (clearSeq (data_seq d) s) =
        clearSeq (data_seq d) s"
    if "set (listeners s Ack) \<subseteq> {ackListener}"
    using that by (simp add: l ackListeners_inert [OF onAck_cleared])
  have c: "callback_runs k es (FailureDetector opts) \<le> 1"
    by (rule callback_runs_le_1 [OF callbacks_ok_FailureDetector])
  show ?thesis
    using a b c clearSeq_twice [of sq s] clearSeq_many [where sq = sq and n = n and s = s] clearSeq_unknown [of s sq]
      onAck_cleared [of d s] onAck_twice [of d s]
    by blast
qed

theorem clearSeq_idempotent_witness:
  "clearSeq 5 (FailureDetector \<lparr>opt_interval = None, opt_pingTimeout = None,
      opt_pingReqTimeout = None, opt_pingReqGroupSize = None,
      opt_debugIdentifier = Some ''B''\<rparr>) =
     FailureDetector \<lparr>opt_interval = None, opt_pingTimeout = None,
      opt_pingReqTimeout = None, opt_pingReqGroupSize = None,
      opt_debugIdentifier = Some ''B''\<rparr> \<and>
   step (Receive \<lparr>msg_type = Ack,
                   msg_data = \<lparr>data_seq = 0, data_host = Some ''C'',
                               data_destination = None\<rparr>\<rparr> ''C'')
     (clearSeq 0 (pingMember (Some \<lparr>host = ''C''\<rparr>)
        (start (FailureDetector \<lparr>opt_interval = None, opt_pingTimeout = None,
           opt_pingReqTimeout = None, opt_pingReqGroupSize = None,
           opt_debugIdentifier = Some ''B''\<rparr>)))) =
     clearSeq 0 (pingMember (Some \<lparr>host = ''C''\<rparr>)
        (start (FailureDetector \<lparr>opt_interval = None, opt_pingTimeout = None,
           opt_pingReqTimeout = None, opt_pingReqGroupSize = None,
           opt_debugIdentifier = Some ''B''\<rparr>)))"
proof -
  let ?o = "\<lparr>opt_interval = None, opt_pingTimeout = None,
      opt_pingReqTimeout = None, opt_pingReqGroupSize = None,
      opt_debugIdentifier = Some ''B''\<rparr>"
  let ?d = "\<lparr>data_seq = 0, data_host = Some ''C'', data_destination = None\<rparr>"
  let ?s = "pingMember (Some \<lparr>host = ''C''\<rparr>) (start (FailureDetector ?o))"
  have u: "seqToTimeout (FailureDetector ?o) 5 = None \<and> seqToCallback (FailureDetector ?o) 5 = None"
    by (simp add: FailureDetector_def)
  have l: "set (listeners ?s Ack) \<subseteq> {ackListener}"
    by (simp add: pingMember_def start_def tick_def FailureDetector_def runtime_defs Let_def)
  have "clearSeq 5 (FailureDetector ?o) = FailureDetector ?o"
    using clearSeq_idempotent [where sq = 5 and s = "FailureDetector ?o"] u by blast
  moreover have "step (Receive \<lparr>msg_type = Ack, msg_data = ?d\<rparr> ''C'') (clearSeq (data_seq ?d) ?s) =
      clearSeq (data_seq ?d) ?s"
    using clearSeq_idempotent [where s = ?s and d = ?d and h = "''C''"] l by blast
  ultimately show ?thesis
    by (simp del: step.simps)
qed

subsection \<open>Sequence numbers\<close>

lemma seqs_ok_clearSeq: "seqs_ok s \<Longrightarrow> seqs_ok (clearSeq k s)"
  by (auto simp: seqs_ok_def clearSeq_def runtime_defs Let_def split: option.splits)

lemma seqs_ok_leg: "seqs_ok s \<Longrightarrow> seqs_ok (pingReqThroughMember m r t s)"
  by (auto simp: seqs_ok_def probe_seqs_def pingReqThroughMember_def runtime_defs Let_def
      less_Suc_eq)

lemma seqs_ok_legs:
  "seqs_ok s \<Longrightarrow> seqs_ok (fold (\<lambda>r. pingReqThroughMember m r t) rs s)"
  by (induction rs arbitrary: s) (auto simp: seqs_ok_leg)

lemma seqs_ok_pingReq: "seqs_ok s \<Longrightarrow> seqs_ok (pingReq m mem s)"
proof -
  assume a: "seqs_ok s"
  have "seqs_ok (snd (setTimeout (pingReqTimeout_fn m) (pingReqTimeout s) s))"
    using a by (auto simp: seqs_ok_def runtime_defs)
  then show ?thesis
    by (auto simp: pingReq_def Let_def a seqs_ok_legs split: prod.splits)
qed

lemma seqs_ok_pingMember: "seqs_ok s \<Longrightarrow> seqs_ok (pingMember mo s)"
  by (auto simp: seqs_ok_def probe_seqs_def pingMember_def runtime_defs Let_def less_Suc_eq
      split: option.splits)

lemma seqs_ok_start: "seqs_ok s \<Longrightarrow> seqs_ok (start s)"
  by (auto simp: seqs_ok_def start_def tick_def runtime_defs Let_def)

lemma seqs_ok_stop: "seqs_ok s \<Longrightarrow> seqs_ok (stop s)"
  by (auto simp: seqs_ok_def stop_def runtime_defs Let_def split: option.splits)

lemma seqs_ok_call_listener: "seqs_ok s \<Longrightarrow> seqs_ok (call_listener l d h s)"
  by (cases l)
     (auto simp: seqs_ok_def probe_seqs_def onPing_def onPingReq_def onAck_def clearSeq_def
        runtime_defs Let_def less_Suc_eq split: option.splits)

lemma seqs_ok_listeners:
  "seqs_ok s \<Longrightarrow> seqs_ok (fold (\<lambda>l. call_listener l d h) ls s)"
  by (induction ls arbitrary: s) (auto simp: seqs_ok_call_listener)

lemma seqs_ok_upd:
  "seqs_ok s \<Longrightarrow> seqs_ok (s\<lparr>timeouts := x\<rparr>)"
  "seqs_ok s \<Longrightarrow> seqs_ok (s\<lparr>nextTicks := y\<rparr>)"
  "seqs_ok s \<Longrightarrow> seqs_ok (s\<lparr>immediates := z\<rparr>)"
  by (simp_all add: seqs_ok_def)

lemma seqs_ok_timeout_fn: "seqs_ok s \<Longrightarrow> seqs_ok (run_timeout_fn f mem s)"
  by (cases f)
     (auto simp: seqs_ok_clearSeq seqs_ok_pingReq, auto simp: seqs_ok_def runtime_defs)

lemma seqs_ok_callback: "seqs_ok s \<Longrightarrow> seqs_ok (run_callback cb s)"
  by (cases cb)
     (auto simp: seqs_ok_def probe_seqs_def clearSeq_def runtime_defs Let_def
        split: option.splits)

lemma seqs_ok_step: "seqs_ok s \<Longrightarrow> seqs_ok (step e s)"
  by (cases e)
     (auto simp: seqs_ok_start seqs_ok_stop seqs_ok_timeout_fn seqs_ok_callback
        seqs_ok_upd seqs_ok_listeners seqs_ok_pingMember ping_def
        split: option.splits list.splits)

lemma seqs_ok_run: "seqs_ok s \<Longrightarrow> seqs_ok (run es s)"
  by (induction es arbitrary: s) (auto simp: seqs_ok_step)

lemma seqs_ok_FailureDetector: "seqs_ok (FailureDetector opts)"
  by (simp add: seqs_ok_def probe_seqs_def FailureDetector_def)

lemma sorted_wrt_less_upt: "sorted_wrt (<) [i..<j]"
  by (induction j) (auto simp: sorted_wrt_append)

text \<open>
  C6: each of the three allocations (\<open>pingMember\<close>, \<open>pingReqThroughMember\<close>,
  \<open>onPingReq\<close>) takes the value of the counter \<open>seq\<close>, records it as pending, sends it in a
  Ping or PingReq and advances the counter by one. In every state a detector can reach
  from its construction, the sequences allocated so far are \<open>0, 1, \<dots>, seq - 1\<close> in the
  order of their allocation, so each is greater than all allocated before it and the next
  one is greater than them all; and every pending sequence (one with a timeout or a
  callback) is below the counter, so the next sequence allocated is not pending.
\<close>

theorem seq_fresh:
  assumes "s = run es (FailureDetector opts)"
  shows
    "seq (pingMember (Some m) s) = Suc (seq s) \<and>
     seqToTimeout (pingMember (Some m) s) (seq s) \<noteq> None \<and>
     probe_seqs (sent (pingMember (Some m) s)) = probe_seqs (sent s) @ [seq s] \<and>
     seq (pingReqThroughMember m r t s) = Suc (seq s) \<and>
     seqToTimeout (pingReqThroughMember m r t s) (seq s) \<noteq> None \<and>
     seqToCallback (pingReqThroughMember m r t s) (seq s) \<noteq> None \<and>
     probe_seqs (sent (pingReqThroughMember m r t s)) = probe_seqs (sent s) @ [seq s] \<and>
     seq (onPingReq d h s) = Suc (seq s) \<and>
     seqToTimeout (onPingReq d h s) (seq s) \<noteq> None \<and>
     seqToCallback (onPingReq d h s) (seq s) \<noteq> None \<and>
     probe_seqs (sent (onPingReq d h s)) = probe_seqs (sent s) @ [seq s] \<and>
     probe_seqs (sent s) = [0..<seq s] \<and>
     sorted_wrt (<) (probe_seqs (sent s)) \<and>
     (\<forall>k\<in>set (probe_seqs (sent s)). k < seq s) \<and>
     (\<forall>k. seqToTimeout s k \<noteq> None \<or> seqToCallback s k \<noteq> None \<longrightarrow> k < seq s) \<and>
     seqToTimeout s (seq s) = None \<and>
     seqToCallback s (seq s) = None"
proof -
  have ok: "seqs_ok s"
    unfolding assms by (rule seqs_ok_run [OF seqs_ok_FailureDetector])
  have a: "seq (pingMember (Some m) s) = Suc (seq s) \<and>
     seqToTimeout (pingMember (Some m) s) (seq s) \<noteq> None \<and>
     probe_seqs (sent (pingMember (Some m) s)) = probe_seqs (sent s) @ [seq s]"
    by (simp add: pingMember_def probe_seqs_def runtime_defs Let_def)
  have b: "seq (pingReqThroughMember m r t s) = Suc (seq s) \<and>
     seqToTimeout (pingReqThroughMember m r t s) (seq s) \<noteq> None \<and>
     seqToCallback (pingReqThroughMember m r t s) (seq s) \<noteq> None \<and>
     probe_seqs (sent (pingReqThroughMember m r t s)) = probe_seqs (sent s) @ [seq s]"
    by (simp add: pingReqThroughMember_def probe_seqs_def runtime_defs Let_def)
  have c: "seq (onPingReq d h s) = Suc (seq s) \<and>
     seqToTimeout (onPingReq d h s) (seq s) \<noteq> None \<and>
     seqToCallback (onPingReq d h s) (seq s) \<noteq> None \<and>
     probe_seqs (sent (onPingReq d h s)) = probe_seqs (sent s) @ [seq s]"
    by (simp add: onPingReq_def probe_seqs_def runtime_defs Let_def)
  have p: "probe_seqs (sent s) = [0..<seq s]"
    using ok by (simp add: seqs_ok_def)
  have q: "sorted_wrt (<) (probe_seqs (sent s))"
    unfolding p by (rule sorted_wrt_less_upt)
  have r: "\<forall>k\<in>set (probe_seqs (sent s)). k < seq s"
    unfolding p by simp
  have u: "\<forall>k. seqToTimeout s k \<noteq> None \<or> seqToCallback s k \<noteq> None \<longrightarrow> k < seq s"
    using ok unfolding seqs_ok_def by blast
  have v: "seqToTimeout s (seq s) = None \<and> seqToCallback s (seq s) = None"
    using u by (metis less_irrefl)
  show ?thesis using a b c p q r u v by blast
qed

theorem seq_fresh_witness:
  "probe_seqs (sent (run [Start,
       ImmediateRuns \<lparr>mnext = Some \<lparr>host = ''C''\<rparr>, mrandom = (\<lambda>k. [])\<rparr>,
       Receive \<lparr>msg_type = PingReq,
                msg_data = \<lparr>data_seq = 7, data_host = Some ''A'',
                            data_destination = Some ''D''\<rparr>\<rparr> ''A'']
     (FailureDetector \<lparr>opt_interval = None, opt_pingTimeout = None,
        opt_pingReqTimeout = None, opt_pingReqGroupSize = None,
        opt_debugIdentifier = Some ''B''\<rparr>))) = [0, 1] \<and>
   seq (run [Start,
       ImmediateRuns \<lparr>mnext = Some \<lparr>host = ''C''\<rparr>, mrandom = (\<lambda>k. [])\<rparr>,
       Receive \<lparr>msg_type = PingReq,
                msg_data = \<lparr>data_seq = 7, data_host = Some ''A'',
                            data_destination = Some ''D''\<rparr>\<rparr> ''A'']
     (FailureDetector \<lparr>opt_interval = None, opt_pingTimeout = None,
        opt_pingReqTimeout = None, opt_pingReqGroupSize = None,
        opt_debugIdentifier = Some ''B''\<rparr>)) = 2"
proof -
  let ?es = "[Start,
       ImmediateRuns \<lparr>mnext = Some \<lparr>host = ''C''\<rparr>, mrandom = (\<lambda>k. [])\<rparr>,
       Receive \<lparr>msg_type = PingReq,
                msg_data = \<lparr>data_seq = 7, data_host = Some ''A'',
                            data_destination = Some ''D''\<rparr>\<rparr> ''A'']"
  let ?o = "\<lparr>opt_interval = None, opt_pingTimeout = None,
        opt_pingReqTimeout = None, opt_pingReqGroupSize = None,
        opt_debugIdentifier = Some ''B''\<rparr>"
  have n: "seq (run ?es (FailureDetector ?o)) = 2"
    by (simp add: FailureDetector_def start_def tick_def ping_def pingMember_def onPingReq_def
        runtime_defs Let_def)
  have "probe_seqs (sent (run ?es (FailureDetector ?o))) = [0..<seq (run ?es (FailureDetector ?o))]"
    using seq_fresh [where es = ?es and opts = ?o, OF refl] by blast
  then show ?thesis
    unfolding n by (simp add: upt_rec)
qed

subsection \<open>What the closures captured\<close>

lemma closures_ok_clearSeq: "closures_ok s \<Longrightarrow> closures_ok (clearSeq k s)"
  unfolding closures_ok_def
  by (auto simp: clearSeq_def runtime_defs Let_def split: option.splits if_splits)

lemma closures_ok_leg:
  "closures_ok s \<Longrightarrow> t < nextHandle s \<Longrightarrow> closures_ok (pingReqThroughMember m r t s)"
  unfolding closures_ok_def
  by (fastforce simp: pingReqThroughMember_def runtime_defs Let_def less_Suc_eq
      split: if_splits)

lemma leg_nextHandle: "nextHandle (pingReqThroughMember m r t s) = Suc (nextHandle s)"
  by (simp add: pingReqThroughMember_def runtime_defs Let_def)

lemma closures_ok_legs:
  "closures_ok s \<Longrightarrow> t < nextHandle s \<Longrightarrow>
     closures_ok (fold (\<lambda>r. pingReqThroughMember m r t) rs s)"
  by (induction rs arbitrary: s) (auto simp: closures_ok_leg leg_nextHandle)

lemma closures_ok_setTimeout_suspect:
  "closures_ok s \<Longrightarrow> closures_ok (snd (setTimeout (pingReqTimeout_fn m) d s))"
  unfolding closures_ok_def
  by (fastforce simp: runtime_defs less_Suc_eq split: if_splits)

lemma closures_ok_pingReq: "closures_ok s \<Longrightarrow> closures_ok (pingReq m mem s)"
proof -
  assume a: "closures_ok s"
  have "closures_ok (snd (setTimeout (pingReqTimeout_fn m) (pingReqTimeout s) s))"
    using a by (rule closures_ok_setTimeout_suspect)
  moreover have "nextHandle s < nextHandle (snd (setTimeout (pingReqTimeout_fn m) (pingReqTimeout s) s))"
    by (simp add: setTimeout_def)
  ultimately have "closures_ok (fold (\<lambda>r. pingReqThroughMember m r (nextHandle s))
      (mrandom mem (pingReqGroupSize s))
      (snd (setTimeout (pingReqTimeout_fn m) (pingReqTimeout s) s)))"
    by (rule closures_ok_legs)
  then show ?thesis
    using a by (simp add: pingReq_def Let_def setTimeout_def)
qed

lemma closures_ok_pingMember: "closures_ok s \<Longrightarrow> closures_ok (pingMember mo s)"
  unfolding closures_ok_def
  by (cases mo) (fastforce simp: pingMember_def runtime_defs Let_def less_Suc_eq
      split: if_splits)+

lemma closures_ok_start: "closures_ok s \<Longrightarrow> closures_ok (start s)"
  unfolding closures_ok_def
  by (fastforce simp: start_def tick_def runtime_defs Let_def less_Suc_eq)

lemma set_remove_last: "set (rev (remove1 l (rev xs))) \<subseteq> set xs"
  using set_remove1_subset [of l "rev xs"] by simp

lemma closures_ok_stop: "closures_ok s \<Longrightarrow> closures_ok (stop s)"
proof -
  assume a: "closures_ok s"
  have t: "\<forall>h d f k. timeouts (stop s) h = Some (d, f) \<longrightarrow> timeout_seq f = Some k \<longrightarrow>
      k < seq (stop s)"
    using a unfolding closures_ok_def
    by (auto simp: stop_def runtime_defs Let_def restrict_map_def split: option.splits if_splits)
  have l: "set (listeners (stop s) Ping) \<subseteq> {pingListener} \<and>
     set (listeners (stop s) PingReq) \<subseteq> {pingReqListener} \<and>
     set (listeners (stop s) Ack) \<subseteq> {ackListener}"
    using a set_remove_last [of pingListener "listeners s Ping"]
      set_remove_last [of pingReqListener "listeners s PingReq"]
      set_remove_last [of ackListener "listeners s Ack"]
    unfolding closures_ok_def
    by (auto simp: stop_def runtime_defs Let_def split: option.splits)
  have r: "seqToTimeout (stop s) = Map.empty" "seqToCallback (stop s) = Map.empty"
    "nextTicks (stop s) = nextTicks s" "seq (stop s) = seq s" "nextHandle (stop s) = nextHandle s"
    by (simp_all add: stop_def runtime_defs Let_def split: option.splits)
  show ?thesis
    using a t l unfolding closures_ok_def r by simp
qed

lemma closures_ok_call_listener: "closures_ok s \<Longrightarrow> closures_ok (call_listener l d h s)"
proof (cases l)
  case pingListener
  assume "closures_ok s"
  then show ?thesis
    unfolding pingListener closures_ok_def by (auto simp: onPing_def runtime_defs)
next
  case pingReqListener
  assume "closures_ok s"
  then show ?thesis
    unfolding pingReqListener closures_ok_def
    by (fastforce simp: onPingReq_def runtime_defs Let_def less_Suc_eq split: if_splits)
next
  case ackListener
  assume a: "closures_ok s"
  have "closures_ok (case seqToCallback s (data_seq d) of None \<Rightarrow> s | Some cb \<Rightarrow> nextTick cb s)"
    using a unfolding closures_ok_def by (auto simp: nextTick_def split: option.splits)
  then show ?thesis
    unfolding ackListener by (simp add: onAck_def Let_def closures_ok_clearSeq)
qed

lemma closures_ok_listeners:
  "closures_ok s \<Longrightarrow> closures_ok (fold (\<lambda>l. call_listener l d h) ls s)"
  by (induction ls arbitrary: s) (auto simp: closures_ok_call_listener)

lemma closures_ok_drop_timeout:
  "closures_ok s \<Longrightarrow> closures_ok (s\<lparr>timeouts := (timeouts s)(h := None)\<rparr>)"
  unfolding closures_ok_def by (auto split: if_splits)

lemma closures_ok_upd:
  "closures_ok s \<Longrightarrow> closures_ok (s\<lparr>immediates := z\<rparr>)"
  "closures_ok s \<Longrightarrow> nextTicks s = cb # cbs \<Longrightarrow> closures_ok (s\<lparr>nextTicks := cbs\<rparr>)"
  unfolding closures_ok_def by auto

lemma closures_ok_timeout_fn: "closures_ok s \<Longrightarrow> closures_ok (run_timeout_fn f mem s)"
proof (cases f)
  case (pingReqTimeout_fn m)
  assume "closures_ok s"
  then show ?thesis
    unfolding pingReqTimeout_fn closures_ok_def by (auto simp: emit_Suspect_def)
qed (auto simp: closures_ok_clearSeq closures_ok_pingReq)

lemma closures_ok_callback: "closures_ok s \<Longrightarrow> closures_ok (run_callback cb s)"
proof (cases cb)
  case (pingReqAckReceiveCallback sq t)
  assume "closures_ok s"
  then have "closures_ok (clearSeq sq s)" by (rule closures_ok_clearSeq)
  then have "closures_ok ((clearSeq sq s)\<lparr>timeouts := (timeouts (clearSeq sq s))(t := None)\<rparr>)"
    by (rule closures_ok_drop_timeout)
  then show ?thesis
    unfolding pingReqAckReceiveCallback by (simp add: clearTimeout_def)
next
  case (pingAckReceiveCallback sq reqSeq h)
  assume "closures_ok s"
  then have "closures_ok (clearSeq sq s)" by (rule closures_ok_clearSeq)
  then show ?thesis
    unfolding pingAckReceiveCallback closures_ok_def by (auto simp: sendMessage_def)
qed

lemma closures_ok_step: "closures_ok s \<Longrightarrow> closures_ok (step e s)"
  by (cases e)
     (auto simp: closures_ok_start closures_ok_stop closures_ok_timeout_fn
        closures_ok_callback closures_ok_upd closures_ok_drop_timeout closures_ok_listeners
        closures_ok_pingMember ping_def
        split: option.splits list.splits)

lemma closures_ok_run: "closures_ok s \<Longrightarrow> closures_ok (run es s)"
  by (induction es arbitrary: s) (auto simp: closures_ok_step)

lemma closures_ok_FailureDetector: "closures_ok (FailureDetector opts)"
  by (simp add: closures_ok_def FailureDetector_def)

subsection \<open>An open transaction stays open\<close>

lemma transaction_clearSeq:
  "transaction k hk x cbo s \<Longrightarrow> j \<noteq> k \<Longrightarrow> transaction k hk x cbo (clearSeq j s)"
  unfolding transaction_def
  by (auto simp: clearSeq_def runtime_defs Let_def split: option.splits if_splits)

lemma transaction_leg:
  "transaction k hk x cbo s \<Longrightarrow> t \<noteq> hk \<Longrightarrow>
     transaction k hk x cbo (pingReqThroughMember m r t s)"
  unfolding transaction_def
  by (auto simp: pingReqThroughMember_def runtime_defs Let_def less_Suc_eq split: if_splits)

lemma transaction_legs:
  "transaction k hk x cbo s \<Longrightarrow> t \<noteq> hk \<Longrightarrow>
     transaction k hk x cbo (fold (\<lambda>r. pingReqThroughMember m r t) rs s)"
  by (induction rs arbitrary: s) (auto simp: transaction_leg)

lemma transaction_setTimeout_suspect:
  "transaction k hk x cbo s \<Longrightarrow>
     transaction k hk x cbo (snd (setTimeout (pingReqTimeout_fn m) d s))"
  unfolding transaction_def
  by (auto simp: runtime_defs less_Suc_eq split: if_splits)

lemma transaction_pingReq: "transaction k hk x cbo s \<Longrightarrow> transaction k hk x cbo (pingReq m mem s)"
proof -
  assume a: "transaction k hk x cbo s"
  have "transaction k hk x cbo (snd (setTimeout (pingReqTimeout_fn m) (pingReqTimeout s) s))"
    using a by (rule transaction_setTimeout_suspect)
  moreover have "nextHandle s \<noteq> hk"
    using a by (auto simp: transaction_def)
  ultimately have "transaction k hk x cbo (fold (\<lambda>r. pingReqThroughMember m r (nextHandle s))
      (mrandom mem (pingReqGroupSize s))
      (snd (setTimeout (pingReqTimeout_fn m) (pingReqTimeout s) s)))"
    by (rule transaction_legs)
  then show ?thesis
    using a by (simp add: pingReq_def Let_def setTimeout_def)
qed

lemma transaction_pingMember:
  "transaction k hk x cbo s \<Longrightarrow> transaction k hk x cbo (pingMember mo s)"
  unfolding transaction_def
  by (cases mo) (auto simp: pingMember_def runtime_defs Let_def less_Suc_eq split: if_splits)

lemma transaction_start: "transaction k hk x cbo s \<Longrightarrow> transaction k hk x cbo (start s)"
  unfolding transaction_def
  by (auto simp: start_def tick_def runtime_defs Let_def less_Suc_eq)

lemma transaction_onPing: "transaction k hk x cbo s \<Longrightarrow> transaction k hk x cbo (onPing d h s)"
  unfolding transaction_def by (auto simp: onPing_def runtime_defs)

lemma transaction_onPingReq:
  "transaction k hk x cbo s \<Longrightarrow> transaction k hk x cbo (onPingReq d h s)"
  unfolding transaction_def
  by (auto simp: onPingReq_def runtime_defs Let_def less_Suc_eq split: if_splits)

lemma transaction_onAck:
  assumes "transaction k hk x cbo s" and "data_seq d \<noteq> k"
  shows "transaction k hk x cbo (onAck d s)"
proof -
  have "transaction k hk x cbo
      (case seqToCallback s (data_seq d) of None \<Rightarrow> s | Some cb \<Rightarrow> nextTick cb s)"
    using assms unfolding transaction_def by (auto simp: nextTick_def split: option.splits)
  then show ?thesis
    using assms(2) by (simp add: onAck_def Let_def transaction_clearSeq)
qed

lemma transaction_call_listener:
  "transaction k hk x cbo s \<Longrightarrow> (l = ackListener \<longrightarrow> data_seq d \<noteq> k) \<Longrightarrow>
     transaction k hk x cbo (call_listener l d h s)"
  by (cases l) (simp_all add: transaction_onPing transaction_onPingReq transaction_onAck)

lemma transaction_listeners:
  "transaction k hk x cbo s \<Longrightarrow> (ackListener \<in> set ls \<longrightarrow> data_seq d \<noteq> k) \<Longrightarrow>
     transaction k hk x cbo (fold (\<lambda>l. call_listener l d h) ls s)"
  by (induction ls arbitrary: s) (auto simp: transaction_call_listener)

lemma transaction_receive:
  assumes "transaction k hk x cbo s" and "\<not> ends_transaction k hk (Receive m h)"
  shows "transaction k hk x cbo (step (Receive m h) s)"
proof -
  have "ackListener \<in> set (listeners s (msg_type m)) \<longrightarrow> data_seq (msg_data m) \<noteq> k"
    using assms unfolding transaction_def by (cases "msg_type m") auto
  then show ?thesis
    using assms(1) by (simp add: transaction_listeners)
qed

lemma transaction_timeout_fires:
  assumes "transaction k hk x cbo s" and "h \<noteq> hk"
  shows "transaction k hk x cbo (step (TimeoutFires h mem) s)"
proof (cases "timeouts s h")
  case None
  then show ?thesis using assms by simp
next
  case (Some y)
  obtain d f where y: "y = (d, f)" by (cases y)
  have a: "transaction k hk x cbo (s\<lparr>timeouts := (timeouts s)(h := None)\<rparr>)"
    using assms unfolding transaction_def by auto
  have nk: "timeout_seq f \<noteq> Some k"
    using assms Some y unfolding transaction_def by auto
  have "transaction k hk x cbo (run_timeout_fn f mem (s\<lparr>timeouts := (timeouts s)(h := None)\<rparr>))"
  proof (cases f)
    case (receiveTimeout_pingMember sq m)
    then have "sq \<noteq> k" using nk by simp
    then show ?thesis
      unfolding receiveTimeout_pingMember
      using a by (simp add: transaction_clearSeq transaction_pingReq)
  next
    case (pingReqTimeout_fn m)
    show ?thesis
      unfolding pingReqTimeout_fn using a
      by (auto simp: transaction_def emit_Suspect_def)
  next
    case (receiveTimeout_pingReqThroughMember sq)
    then have "sq \<noteq> k" using nk by simp
    then show ?thesis
      unfolding receiveTimeout_pingReqThroughMember using a by (simp add: transaction_clearSeq)
  next
    case (receiveTimeout_onPingReq sq)
    then have "sq \<noteq> k" using nk by simp
    then show ?thesis
      unfolding receiveTimeout_onPingReq using a by (simp add: transaction_clearSeq)
  qed
  then show ?thesis using Some y by simp
qed

lemma transaction_nextTick:
  assumes "transaction k hk x cbo s"
  shows "transaction k hk x cbo (step NextTickRuns s)"
proof (cases "nextTicks s")
  case Nil
  then show ?thesis using assms by simp
next
  case (Cons c cs)
  have c: "callback_seq c \<noteq> k" "callback_timeout c \<noteq> Some hk"
    using assms Cons unfolding transaction_def by auto
  have a: "transaction k hk x cbo (s\<lparr>nextTicks := cs\<rparr>)"
    using assms Cons unfolding transaction_def by auto
  have "transaction k hk x cbo (run_callback c (s\<lparr>nextTicks := cs\<rparr>))"
  proof (cases c)
    case (pingReqAckReceiveCallback sq t)
    have "transaction k hk x cbo (clearSeq sq (s\<lparr>nextTicks := cs\<rparr>))"
      using a c pingReqAckReceiveCallback by (simp add: transaction_clearSeq)
    then show ?thesis
      unfolding pingReqAckReceiveCallback using c pingReqAckReceiveCallback
      by (auto simp: transaction_def clearTimeout_def)
  next
    case (pingAckReceiveCallback sq reqSeq h)
    have "transaction k hk x cbo (clearSeq sq (s\<lparr>nextTicks := cs\<rparr>))"
      using a c pingAckReceiveCallback by (simp add: transaction_clearSeq)
    then show ?thesis
      unfolding pingAckReceiveCallback by (auto simp: transaction_def sendMessage_def)
  qed
  then show ?thesis using Cons by simp
qed

lemma transaction_step:
  assumes "transaction k hk x cbo s" and "\<not> ends_transaction k hk e"
  shows "transaction k hk x cbo (step e s)"
proof (cases e)
  case Start
  then show ?thesis using assms by (simp add: transaction_start)
next
  case Stop
  then show ?thesis using assms by simp
next
  case (TimeoutFires h mem)
  then show ?thesis using assms transaction_timeout_fires by simp
next
  case (IntervalFires h mem)
  then show ?thesis
    using assms by (simp add: ping_def transaction_pingMember split: option.splits)
next
  case (ImmediateRuns mem)
  have "transaction k hk x cbo (s\<lparr>immediates := immediates s - 1\<rparr>)"
    using assms(1) unfolding transaction_def by simp
  then show ?thesis
    using assms ImmediateRuns by (simp add: ping_def transaction_pingMember)
next
  case NextTickRuns
  then show ?thesis using assms(1) transaction_nextTick by simp
next
  case (Receive m h)
  then show ?thesis using assms transaction_receive by simp
qed

lemma transaction_run:
  "transaction k hk x cbo s \<Longrightarrow> \<forall>e\<in>set es. \<not> ends_transaction k hk e \<Longrightarrow>
     transaction k hk x cbo (run es s)"
  by (induction es arbitrary: s) (auto simp: transaction_step)

end
